theory Spec2Isabelle
  imports Main "HOL-Library.AList"
begin

section \<open>The LRU cache of src/lru.ts\<close>

text \<open>
  The cache is a doubly linked list of entry objects plus a dictionary from keys to
  entries. Entries are shared, mutable objects: the same entry is referenced by the
  dictionary, by \<open>head\<close>/\<open>tail\<close> and by its neighbours' links. The model therefore has
  an explicit store: a list of entry records, an entry's address being its index. A
  \<open>new\<close> entry is appended to the store, so its address is fresh.

  Conventions of the model:
  \<^item> \<open>undefined\<close> links and results are \<open>None\<close>;
  \<^item> \<open>limit\<close> and \<open>size\<close> are integers (the source's numbers, on the integers;
    fractional limits and \<open>NaN\<close> are outside the model);
  \<^item> the own bindings of \<open>keymap\<close> are an association list in insertion order:
    assignment is \<open>AList.update\<close>, \<open>delete\<close> is \<open>AList.delete\<close>; the lookup
    \<open>keymap[k]\<close> also sees the properties the object inherits (see \<open>find_lru\<close>);
  \<^item> a value is any element of the type \<open>'v\<close>;
  \<^item> the source's field \<open>value\<close> is called \<open>val\<close>, its field \<open>size\<close> is
    \<open>size_lru\<close>, and \<open>set\<close>, \<open>find\<close>, \<open>removeAll\<close>, \<open>toString\<close> carry the
    suffix \<open>_lru\<close>.
\<close>

subsection \<open>Data\<close>

type_synonym addr = nat

record 'v entry =
  newer :: "addr option"
  older :: "addr option"
  key :: string
  val :: 'v

record 'v cache =
  limit :: int
  size_lru :: int
  keymap :: "(string \<times> addr) list"
  head :: "addr option"
  tail :: "addr option"
  heap :: "'v entry list"

text \<open>Field assignments \<open>a.newer = x\<close>, \<open>a.older = x\<close>, \<open>a.value = x\<close> on the store.\<close>

definition set_newer :: "'v entry list \<Rightarrow> addr \<Rightarrow> addr option \<Rightarrow> 'v entry list" where
  "set_newer h a x = h[a := (h ! a)\<lparr>newer := x\<rparr>]"

definition set_older :: "'v entry list \<Rightarrow> addr \<Rightarrow> addr option \<Rightarrow> 'v entry list" where
  "set_older h a x = h[a := (h ! a)\<lparr>older := x\<rparr>]"

definition set_val :: "'v entry list \<Rightarrow> addr \<Rightarrow> 'v \<Rightarrow> 'v entry list" where
  "set_val h a x = h[a := (h ! a)\<lparr>val := x\<rparr>]"

subsection \<open>Operations\<close>

text \<open>The constructor: it stores the limit as given and checks nothing.\<close>

definition construct :: "int \<Rightarrow> 'v cache" where
  "construct lim =
     \<lparr>limit = lim, size_lru = 0, keymap = [], head = None, tail = None, heap = []\<rparr>"

text \<open>
  \<open>shift\<close>: purge the head entry. The size field is not touched, and neither is
  \<open>tail\<close>.
\<close>

definition shift :: "'v cache \<Rightarrow> 'v cache \<times> addr option" where
  "shift c =
     (case head c of
        None \<Rightarrow> (c, None)
      | Some e \<Rightarrow>
          let c1 = (case newer (heap c ! e) of
                      Some n \<Rightarrow> c\<lparr>head := Some n, heap := set_older (heap c) n None\<rparr>
                    | None \<Rightarrow> c\<lparr>head := None\<rparr>);
              c2 = c1\<lparr>heap := set_newer (set_older (heap c1) e None) e None\<rparr>;
              c3 = c2\<lparr>keymap := AList.delete (key (heap c2 ! e)) (keymap c2)\<rparr>
          in (c3, Some e))"

text \<open>
  \<open>put\<close>: allocate the entry, store it in the dictionary, link it behind the tail
  (or make it the head when there is no tail), make it the tail, and then either
  shift (when \<open>size === limit\<close>) or count it. The assignment
  \<open>this.keymap[key] = entry\<close> creates or replaces the own binding of the key, for
  every key but \<open>__proto__\<close>: assigned to, that name replaces the prototype of the
  dictionary and binds nothing. The state has no field for the prototype, so for this
  one key the \<open>keymap\<close> that \<open>put\<close> yields below is not the program's; links,
  \<open>head\<close>, \<open>tail\<close>, \<open>size\<close> and the result are. Sequences of calls stop at
  such a \<open>put\<close> (see \<open>apply_op\<close>), and what is stated of the dictionary after a
  \<open>put\<close> is stated for the other keys.
\<close>

definition put :: "'v cache \<Rightarrow> string \<Rightarrow> 'v \<Rightarrow> 'v cache \<times> addr option" where
  "put c k v =
     (let e = length (heap c);
          c1 = c\<lparr>heap := heap c @ [\<lparr>newer = None, older = None, key = k, val = v\<rparr>],
                keymap := AList.update k e (keymap c)\<rparr>;
          c2 = (case tail c1 of
                  Some t \<Rightarrow> c1\<lparr>heap := set_older (set_newer (heap c1) t (Some e)) e (Some t)\<rparr>
                | None \<Rightarrow> c1\<lparr>head := Some e\<rparr>);
          c3 = c2\<lparr>tail := Some e\<rparr>
      in if size_lru c3 = limit c3 then shift c3
         else (c3\<lparr>size_lru := size_lru c3 + 1\<rparr>, None))"

subsubsection \<open>The lookup \<open>this.keymap[key]\<close>\<close>

text \<open>
  \<open>keymap\<close> is created as \<open>{}\<close>, a plain object, so a lookup that finds no own
  binding goes on to the properties the object inherits from \<open>Object.prototype\<close>.
  Eleven of them are functions (below, as ECMAScript and its Annex B name them); the
  twelfth, \<open>__proto__\<close>, is an accessor: reading it yields the object's prototype,
  assigning an object to it replaces the prototype and creates no own binding.
  A lookup therefore has four outcomes: nothing, an entry of the cache, one of the
  inherited functions (identified by its name), or the prototype object.
\<close>

definition inherited_names :: "string list" where
  "inherited_names =
     [''constructor'', ''toString'', ''toLocaleString'', ''valueOf'', ''hasOwnProperty'',
      ''isPrototypeOf'', ''propertyIsEnumerable'', ''__defineGetter__'',
      ''__defineSetter__'', ''__lookupGetter__'', ''__lookupSetter__'']"

datatype lookup = Absent | Bound addr | Inherited string | Prototype

definition find_lru :: "'v cache \<Rightarrow> string \<Rightarrow> lookup" where
  "find_lru c k =
     (if k = ''__proto__'' then Prototype
      else case map_of (keymap c) k of
             Some e \<Rightarrow> Bound e
           | None \<Rightarrow> if k \<in> set inherited_names then Inherited k else Absent)"

text \<open>
  The store of the model holds the entries of the cache and nothing else. Where a
  method goes on with an object that is not an entry as if it were one, and writes
  its properties, the model stops: the outcome is \<open>Foreign\<close>. That is the case in
  \<open>get\<close> and \<open>set\<close> when the lookup finds an inherited function or the prototype
  (the source then assigns \<open>newer\<close> and \<open>older\<close> of that object and makes it the
  tail), in \<open>remove\<close> when the lookup finds the prototype (which object that is
  depends on the \<open>put\<close>s with the key \<open>__proto__\<close> so far), and in \<open>put\<close> with
  the key \<open>__proto__\<close> inside a sequence of calls. So, in every state that a
  sequence of calls reaches, the inherited functions have no \<open>newer\<close>, \<open>older\<close>,
  \<open>key\<close> or \<open>value\<close> property, as when the program starts.
\<close>

datatype 'a outcome = Done 'a | Foreign

text \<open>What \<open>get\<close> returns: nothing, the entry itself, or its value.\<close>

datatype 'v ret = Undefined | Entry addr | Value 'v

definition ret_of :: "'v cache \<Rightarrow> bool \<Rightarrow> addr \<Rightarrow> 'v ret" where
  "ret_of c returnEntry e = (if returnEntry then Entry e else Value (val (heap c ! e)))"

text \<open>\<open>get\<close> from line 117 on, for the entry \<open>e\<close> that the lookup found.\<close>

definition get_entry :: "'v cache \<Rightarrow> addr \<Rightarrow> bool \<Rightarrow> 'v cache \<times> 'v ret" where
  "get_entry c e returnEntry =
     (if Some e = tail c then (c, ret_of c returnEntry e)
      else
        let c1 = (case newer (heap c ! e) of
                    Some n \<Rightarrow>
                      let c' = (if Some e = head c then c\<lparr>head := Some n\<rparr> else c)
                      in c'\<lparr>heap := set_older (heap c') n (older (heap c' ! e))\<rparr>
                  | None \<Rightarrow> c);
            c2 = (case older (heap c1 ! e) of
                    Some p \<Rightarrow> c1\<lparr>heap := set_newer (heap c1) p (newer (heap c1 ! e))\<rparr>
                  | None \<Rightarrow> c1);
            c3 = c2\<lparr>heap := set_newer (heap c2) e None\<rparr>;
            c4 = c3\<lparr>heap := set_older (heap c3) e (tail c3)\<rparr>;
            c5 = (case tail c4 of
                    Some t \<Rightarrow> c4\<lparr>heap := set_newer (heap c4) t (Some e)\<rparr>
                  | None \<Rightarrow> c4);
            c6 = c5\<lparr>tail := Some e\<rparr>
        in (c6, ret_of c6 returnEntry e))"

definition get :: "'v cache \<Rightarrow> string \<Rightarrow> bool \<Rightarrow> ('v cache \<times> 'v ret) outcome" where
  "get c k returnEntry =
     (case find_lru c k of
        Absent \<Rightarrow> Done (c, Undefined)
      | Bound e \<Rightarrow> Done (get_entry c e returnEntry)
      | Inherited n \<Rightarrow> Foreign
      | Prototype \<Rightarrow> Foreign)"

text \<open>
  \<open>set\<close>: \<open>get(key, true)\<close> yields an entry or nothing (never a bare value, so
  the \<open>Value\<close> case below is not reachable); an entry object is truthy. The result of
  \<open>put\<close>, when it is an entry, is replaced by that entry's value.
\<close>

definition set_lru :: "'v cache \<Rightarrow> string \<Rightarrow> 'v \<Rightarrow> ('v cache \<times> 'v option) outcome" where
  "set_lru c k v =
     (case get c k True of
        Foreign \<Rightarrow> Foreign
      | Done (c1, Entry e) \<Rightarrow>
          Done (c1\<lparr>heap := set_val (heap c1) e v\<rparr>, Some (val (heap c1 ! e)))
      | Done (c1, _) \<Rightarrow>
          (case put c1 k v of
             (c2, None) \<Rightarrow> Done (c2, None)
           | (c2, Some old) \<Rightarrow> Done (c2, Some (val (heap c2 ! old)))))"

text \<open>\<open>remove\<close> from line 177 on, for the entry \<open>e\<close> that the lookup found.\<close>

definition remove_entry :: "'v cache \<Rightarrow> addr \<Rightarrow> 'v cache \<times> 'v option" where
  "remove_entry c e =
     (let c1 = c\<lparr>keymap := AList.delete (key (heap c ! e)) (keymap c)\<rparr>;
          c2 = (case (newer (heap c1 ! e), older (heap c1 ! e)) of
                  (Some n, Some p) \<Rightarrow>
                    c1\<lparr>heap := set_older (set_newer (heap c1) p (Some n)) n (Some p)\<rparr>
                | (Some n, None) \<Rightarrow>
                    c1\<lparr>heap := set_older (heap c1) n None, head := Some n\<rparr>
                | (None, Some p) \<Rightarrow>
                    c1\<lparr>heap := set_newer (heap c1) p None, tail := Some p\<rparr>
                | (None, None) \<Rightarrow> c1\<lparr>head := None, tail := None\<rparr>);
          c3 = c2\<lparr>size_lru := size_lru c2 - 1\<rparr>
      in (c3, Some (val (heap c3 ! e))))"

text \<open>
  \<open>remove\<close>. When the lookup finds an inherited function \<open>f\<close>, the source takes it
  for the entry: \<open>f.key\<close> is undefined, so \<open>delete this.keymap[f.key]\<close> deletes the
  binding of the property name \<open>"undefined"\<close>; \<open>f.newer\<close> and \<open>f.older\<close> are
  undefined, so \<open>head\<close> and \<open>tail\<close> are reset; \<open>size\<close> is decremented; \<open>f.value\<close>,
  undefined, is returned.
\<close>

definition remove :: "'v cache \<Rightarrow> string \<Rightarrow> ('v cache \<times> 'v option) outcome" where
  "remove c k =
     (case find_lru c k of
        Absent \<Rightarrow> Done (c, None)
      | Bound e \<Rightarrow> Done (remove_entry c e)
      | Inherited n \<Rightarrow>
          let c1 = c\<lparr>keymap := AList.delete ''undefined'' (keymap c)\<rparr>;
              c2 = c1\<lparr>head := None, tail := None\<rparr>;
              c3 = c2\<lparr>size_lru := size_lru c2 - 1\<rparr>
          in Done (c3, None)
      | Prototype \<Rightarrow> Foreign)"

definition removeAll_lru :: "'v cache \<Rightarrow> 'v cache" where
  "removeAll_lru c = c\<lparr>head := None, tail := None, size_lru := 0, keymap := []\<rparr>"

definition keys :: "'v cache \<Rightarrow> string list" where
  "keys c = map fst (keymap c)"

text \<open>
  The traversal loops \<open>while (entry) { ...; entry = entry.newer }\<close> (and the same
  along \<open>older\<close>). On a cyclic chain the loop does not end: the result is \<open>None\<close>.
\<close>

partial_function (option) walk_newer :: "'v entry list \<Rightarrow> addr option \<Rightarrow> addr list option" where
  "walk_newer h p =
     (case p of
        None \<Rightarrow> Some []
      | Some a \<Rightarrow> Option.bind (walk_newer h (newer (h ! a))) (\<lambda>r. Some (a # r)))"

partial_function (option) walk_older :: "'v entry list \<Rightarrow> addr option \<Rightarrow> addr list option" where
  "walk_older h p =
     (case p of
        None \<Rightarrow> Some []
      | Some a \<Rightarrow> Option.bind (walk_older h (older (h ! a))) (\<lambda>r. Some (a # r)))"

declare walk_newer.simps [code]
declare walk_older.simps [code]

text \<open>
  \<open>forEach\<close> calls \<open>fun\<close> with the key and value of each entry: the model returns the
  list of these calls. A \<open>context\<close> that is \<open>true\<close> stands for \<open>desc\<close>.
\<close>

definition forEach :: "'v cache \<Rightarrow> bool \<Rightarrow> bool \<Rightarrow> (string \<times> 'v) list option" where
  "forEach c context_true desc =
     map_option (map (\<lambda>a. (key (heap c ! a), val (heap c ! a))))
       (if context_true \<or> desc then walk_older (heap c) (tail c)
        else walk_newer (heap c) (head c))"

fun join_lru :: "string list \<Rightarrow> string" where
  "join_lru [] = []"
| "join_lru [s] = s"
| "join_lru (s # t # ss) = s @ '' < '' @ join_lru (t # ss)"

text \<open>\<open>toString\<close>, with the conversion of a value to a string as a parameter.\<close>

definition toString_lru :: "('v \<Rightarrow> string) \<Rightarrow> 'v cache \<Rightarrow> string option" where
  "toString_lru str c =
     map_option (\<lambda>as. join_lru (map (\<lambda>a. key (heap c ! a) @ '':'' @ str (val (heap c ! a))) as))
       (walk_newer (heap c) (head c))"


fun put_trace :: "'v cache \<Rightarrow> (string \<times> 'v) list \<Rightarrow> 'v cache list" where
  "put_trace c [] = []"
| "put_trace c ((k, v) # kvs) = fst (put c k v) # put_trace (fst (put c k v)) kvs"

subsection \<open>Well-formed states\<close>

text \<open>
  A reference of the running program always refers to an allocated object, and a
  dictionary binding is only ever created by \<open>put\<close>, under the entry's own key.
  \<open>refs_ok\<close> says so for a state of the model.
\<close>

definition ref_ok :: "'v entry list \<Rightarrow> addr option \<Rightarrow> bool" where
  "ref_ok h p = (case p of None \<Rightarrow> True | Some a \<Rightarrow> a < length h)"

definition refs_ok :: "'v cache \<Rightarrow> bool" where
  "refs_ok c =
     (ref_ok (heap c) (head c) \<and> ref_ok (heap c) (tail c) \<and>
      list_all (\<lambda>e. ref_ok (heap c) (newer e) \<and> ref_ok (heap c) (older e)) (heap c) \<and>
      list_all (\<lambda>(k, a). a < length (heap c) \<and> key (heap c ! a) = k) (keymap c))"

text \<open>
  The recency chain. \<open>chain h p xs n\<close>: the entries \<open>xs\<close> are linked in this order
  by \<open>newer\<close> and back by \<open>older\<close>; the first one's \<open>older\<close> is \<open>p\<close> and the last
  one's \<open>newer\<close> is \<open>n\<close>.
\<close>

fun first_of :: "addr list \<Rightarrow> addr option \<Rightarrow> addr option" where
  "first_of [] n = n"
| "first_of (x # xs) n = Some x"

fun last_of :: "addr list \<Rightarrow> addr option \<Rightarrow> addr option" where
  "last_of [] p = p"
| "last_of (x # xs) p = Some (last (x # xs))"

fun chain :: "'v entry list \<Rightarrow> addr option \<Rightarrow> addr list \<Rightarrow> addr option \<Rightarrow> bool" where
  "chain h p [] n = True"
| "chain h p (x # xs) n =
     (x < length h \<and> older (h ! x) = p \<and> newer (h ! x) = first_of xs n \<and>
      chain h (Some x) xs n)"

text \<open>
  \<open>tail_linked c xs\<close>: the links form one acyclic doubly linked chain \<open>xs\<close> that
  ends at \<open>tail\<close>, and every entry of the dictionary is on it.
  \<open>linked c xs\<close>: moreover the chain starts at \<open>head\<close>.
  \<open>cache_inv c xs\<close>: moreover the length of the chain is \<open>size\<close>.
\<close>

definition tail_linked :: "'v cache \<Rightarrow> addr list \<Rightarrow> bool" where
  "tail_linked c xs =
     (refs_ok c \<and> distinct xs \<and> chain (heap c) None xs None \<and>
      tail c = last_of xs None \<and>
      list_all (\<lambda>(k, a). a \<in> set xs) (keymap c))"

definition linked :: "'v cache \<Rightarrow> addr list \<Rightarrow> bool" where
  "linked c xs = (tail_linked c xs \<and> head c = first_of xs None)"

definition cache_inv :: "'v cache \<Rightarrow> addr list \<Rightarrow> bool" where
  "cache_inv c xs = (linked c xs \<and> size_lru c = int (length xs))"

text \<open>
  What every state reachable from a fresh cache satisfies, whatever the limit and
  also after direct calls of \<open>shift\<close>: the chain ends at \<open>tail\<close>; \<open>head\<close> is its first
  entry or none; the dictionary has one binding per key, and the entry bound to a key
  is the newest entry of the chain with that key (\<open>after a xs\<close> are the entries newer
  than \<open>a\<close>).
\<close>

fun after :: "addr \<Rightarrow> addr list \<Rightarrow> addr list" where
  "after a [] = []"
| "after a (x # xs) = (if x = a then xs else after a xs)"

definition latest :: "'v cache \<Rightarrow> addr list \<Rightarrow> bool" where
  "latest c xs =
     (distinct (map fst (keymap c)) \<and>
      list_all (\<lambda>(k, a). list_all (\<lambda>b. key (heap c ! b) \<noteq> k) (after a xs)) (keymap c))"

definition reach_inv :: "'v cache \<Rightarrow> addr list \<Rightarrow> bool" where
  "reach_inv c xs =
     (tail_linked c xs \<and> (head c = None \<or> head c = first_of xs None) \<and> latest c xs)"

text \<open>
  The first half of \<open>put\<close>, up to the test \<open>size === limit\<close>: the state in which the
  new entry is allocated, bound in the dictionary and linked in as the tail.
\<close>

definition put_link :: "'v cache \<Rightarrow> string \<Rightarrow> 'v \<Rightarrow> 'v cache" where
  "put_link c k v =
     (let e = length (heap c);
          c1 = c\<lparr>heap := heap c @ [\<lparr>newer = None, older = None, key = k, val = v\<rparr>],
                keymap := AList.update k e (keymap c)\<rparr>;
          c2 = (case tail c1 of
                  Some t \<Rightarrow> c1\<lparr>heap := set_older (set_newer (heap c1) t (Some e)) e (Some t)\<rparr>
                | None \<Rightarrow> c1\<lparr>head := Some e\<rparr>)
      in c2\<lparr>tail := Some e\<rparr>)"

text \<open>
  Sequences of calls of the state-changing operations (\<open>find\<close>, \<open>keys\<close>,
  \<open>forEach\<close> and \<open>toString\<close> return a result and no state). A \<open>put\<close> with the key
  \<open>__proto__\<close> replaces the prototype of the dictionary, and later lookups go through
  the entry it was given: the sequence leaves the model there.
\<close>

datatype 'v operation =
  OpPut string 'v | OpShift | OpGet string bool | OpSet string 'v | OpRemove string
| OpRemoveAll

fun apply_op :: "'v cache \<Rightarrow> 'v operation \<Rightarrow> 'v cache outcome" where
  "apply_op c (OpPut k v) = (if k = ''__proto__'' then Foreign else Done (fst (put c k v)))"
| "apply_op c OpShift = Done (fst (shift c))"
| "apply_op c (OpGet k r) =
     (case get c k r of Done (c', x) \<Rightarrow> Done c' | Foreign \<Rightarrow> Foreign)"
| "apply_op c (OpSet k v) =
     (case set_lru c k v of Done (c', x) \<Rightarrow> Done c' | Foreign \<Rightarrow> Foreign)"
| "apply_op c (OpRemove k) =
     (case remove c k of Done (c', x) \<Rightarrow> Done c' | Foreign \<Rightarrow> Foreign)"
| "apply_op c OpRemoveAll = Done (removeAll_lru c)"

fun run :: "'v cache \<Rightarrow> 'v operation list \<Rightarrow> 'v cache outcome" where
  "run c [] = Done c"
| "run c (x # xs) = (case apply_op c x of Done c' \<Rightarrow> run c' xs | Foreign \<Rightarrow> Foreign)"

text \<open>
  A key is plain when it is not the name of a property the dictionary inherits; an
  operation is plain when its key is.
\<close>

definition plain_key :: "string \<Rightarrow> bool" where
  "plain_key k = (k \<noteq> ''__proto__'' \<and> k \<notin> set inherited_names)"

fun plain_op :: "'v operation \<Rightarrow> bool" where
  "plain_op (OpPut k v) = plain_key k"
| "plain_op OpShift = True"
| "plain_op (OpGet k r) = plain_key k"
| "plain_op (OpSet k v) = plain_key k"
| "plain_op (OpRemove k) = plain_key k"
| "plain_op OpRemoveAll = True"

subsection \<open>The methods on own bindings\<close>

text \<open>
  For the proofs: \<open>get\<close>, \<open>set\<close>, \<open>remove\<close> and sequences of calls where every
  lookup is decided by the own bindings of the dictionary alone. They agree with the
  methods above whenever the lookup there is \<open>Absent\<close> or \<open>Bound\<close>.
\<close>

definition own_binding :: "'v cache \<Rightarrow> string \<Rightarrow> addr option" where
  "own_binding c k = map_of (keymap c) k"

definition get_own :: "'v cache \<Rightarrow> string \<Rightarrow> bool \<Rightarrow> 'v cache \<times> 'v ret" where
  "get_own c k returnEntry =
     (case map_of (keymap c) k of
        None \<Rightarrow> (c, Undefined)
      | Some e \<Rightarrow> get_entry c e returnEntry)"

definition set_own :: "'v cache \<Rightarrow> string \<Rightarrow> 'v \<Rightarrow> 'v cache \<times> 'v option" where
  "set_own c k v =
     (case get_own c k True of
        (c1, Entry e) \<Rightarrow> (c1\<lparr>heap := set_val (heap c1) e v\<rparr>, Some (val (heap c1 ! e)))
      | (c1, _) \<Rightarrow>
          (case put c1 k v of
             (c2, None) \<Rightarrow> (c2, None)
           | (c2, Some old) \<Rightarrow> (c2, Some (val (heap c2 ! old)))))"

definition remove_own :: "'v cache \<Rightarrow> string \<Rightarrow> 'v cache \<times> 'v option" where
  "remove_own c k =
     (case map_of (keymap c) k of
        None \<Rightarrow> (c, None)
      | Some e \<Rightarrow> remove_entry c e)"

fun apply_own :: "'v cache \<Rightarrow> 'v operation \<Rightarrow> 'v cache" where
  "apply_own c (OpPut k v) = fst (put c k v)"
| "apply_own c OpShift = fst (shift c)"
| "apply_own c (OpGet k r) = fst (get_own c k r)"
| "apply_own c (OpSet k v) = fst (set_own c k v)"
| "apply_own c (OpRemove k) = fst (remove_own c k)"
| "apply_own c OpRemoveAll = removeAll_lru c"

fun run_own :: "'v cache \<Rightarrow> 'v operation list \<Rightarrow> 'v cache" where
  "run_own c [] = c"
| "run_own c (x # xs) = run_own (apply_own c x) xs"

subsection \<open>Example states\<close>

text \<open>The cache after \<open>put("a", 1)\<close>, and after \<open>put("b", 2)\<close> as well.\<close>

definition cache_a :: "int \<Rightarrow> nat cache" where
  "cache_a lim = fst (put (construct lim) ''a'' 1)"

definition cache_ab :: "int \<Rightarrow> nat cache" where
  "cache_ab lim = fst (put (cache_a lim) ''b'' 2)"

text \<open>
  The cache of limit 1 after \<open>put("a", 1); shift(); put("b", 2); put("c", 3)\<close>, and
  the cache of limit 1 after \<open>put("toString", 1); put("toString", 2)\<close>.
\<close>

definition cache_bc :: "nat cache" where
  "cache_bc = fst (put (fst (put (fst (shift (cache_a 1))) ''b'' 2)) ''c'' 3)"

definition cache_toString :: "nat cache" where
  "cache_toString = fst (put (fst (put (construct 1) ''toString'' 1)) ''toString'' 2)"

text \<open>The cache of limit 5 after \<open>put("a", 1); shift(); put("b", 2)\<close>.\<close>

definition cache_stale :: "nat cache" where
  "cache_stale = fst (put (fst (shift (cache_a 5))) ''b'' 2)"

section \<open>Properties\<close>

subsection \<open>Field assignments\<close>

lemmas upd_simps = set_newer_def set_older_def set_val_def list_update_beyond not_less

lemma length_set_newer [simp]: "length (set_newer h a x) = length h"
  by (simp add: set_newer_def)

lemma length_set_older [simp]: "length (set_older h a x) = length h"
  by (simp add: set_older_def)

lemma length_set_val [simp]: "length (set_val h a x) = length h"
  by (simp add: set_val_def)

lemma key_set_newer [simp]: "key (set_newer h a x ! b) = key (h ! b)"
  by (cases "a < length h"; cases "b = a") (simp_all add: upd_simps)

lemma key_set_older [simp]: "key (set_older h a x ! b) = key (h ! b)"
  by (cases "a < length h"; cases "b = a") (simp_all add: upd_simps)

lemma key_set_val [simp]: "key (set_val h a x ! b) = key (h ! b)"
  by (cases "a < length h"; cases "b = a") (simp_all add: upd_simps)

lemma val_set_newer [simp]: "val (set_newer h a x ! b) = val (h ! b)"
  by (cases "a < length h"; cases "b = a") (simp_all add: upd_simps)

lemma val_set_older [simp]: "val (set_older h a x ! b) = val (h ! b)"
  by (cases "a < length h"; cases "b = a") (simp_all add: upd_simps)

lemma older_set_newer [simp]: "older (set_newer h a x ! b) = older (h ! b)"
  by (cases "a < length h"; cases "b = a") (simp_all add: upd_simps)

lemma newer_set_older [simp]: "newer (set_older h a x ! b) = newer (h ! b)"
  by (cases "a < length h"; cases "b = a") (simp_all add: upd_simps)

lemma newer_set_val [simp]: "newer (set_val h a x ! b) = newer (h ! b)"
  by (cases "a < length h"; cases "b = a") (simp_all add: upd_simps)

lemma older_set_val [simp]: "older (set_val h a x ! b) = older (h ! b)"
  by (cases "a < length h"; cases "b = a") (simp_all add: upd_simps)

lemma newer_set_newer:
  "newer (set_newer h a x ! b) = (if b = a \<and> a < length h then x else newer (h ! b))"
  by (cases "a < length h"; cases "b = a") (simp_all add: upd_simps)

lemma older_set_older:
  "older (set_older h a x ! b) = (if b = a \<and> a < length h then x else older (h ! b))"
  by (cases "a < length h"; cases "b = a") (simp_all add: upd_simps)

lemma val_set_val:
  "val (set_val h a x ! b) = (if b = a \<and> a < length h then x else val (h ! b))"
  by (cases "a < length h"; cases "b = a") (simp_all add: upd_simps)

subsection \<open>Size and limit\<close>

lemma shift_size [simp]: "size_lru (fst (shift c)) = size_lru c"
  by (simp add: shift_def Let_def split: option.splits)

lemma shift_limit [simp]: "limit (fst (shift c)) = limit c"
  by (simp add: shift_def Let_def split: option.splits)

lemma shift_tail [simp]: "tail (fst (shift c)) = tail c"
  by (simp add: shift_def Let_def split: option.splits)

lemma put_limit [simp]: "limit (fst (put c k v)) = limit c"
  by (simp add: put_def Let_def split: option.splits)

lemma put_size:
  "size_lru (fst (put c k v)) = (if size_lru c = limit c then size_lru c else size_lru c + 1)"
  by (simp add: put_def Let_def split: option.splits)

lemma put_trace_bound:
  "size_lru c \<le> limit c \<Longrightarrow>
   \<forall>c' \<in> set (put_trace c kvs). size_lru c' \<le> limit c \<and> limit c' = limit c"
proof (induction kvs arbitrary: c)
  case Nil
  then show ?case by simp
next
  case (Cons kv kvs)
  obtain k v where kv: "kv = (k, v)" by (cases kv)
  let ?c = "fst (put c k v)"
  from Cons.prems have le: "size_lru ?c \<le> limit ?c"
    by (simp add: put_size)
  from Cons.IH [OF le] le show ?case
    by (simp add: kv)
qed

text \<open>
  Claim C1 (capacity bound). For every limit \<open>lim \<ge> 0\<close> and every sequence of
  \<open>put\<close> calls on the cache built by \<open>construct lim\<close>, the size field of the
  state after each \<open>put\<close> is at most \<open>lim\<close>.
\<close>

theorem put_capacity_bound:
  "0 \<le> lim \<Longrightarrow> \<forall>c \<in> set (put_trace (construct lim) kvs). size_lru c \<le> lim"
  using put_trace_bound [of "construct lim" kvs] by (simp add: construct_def)

theorem put_capacity_bound_witness:
  "(0::int) \<le> 1 \<and>
   map size_lru (put_trace (construct 1 :: nat cache) [(''a'', 1), (''b'', 2), (''c'', 3)]) =
     [1, 1, 1] \<and>
   list_all (\<lambda>c. size_lru c \<le> 1)
     (put_trace (construct 1 :: nat cache) [(''a'', 1), (''b'', 2), (''c'', 3)])"
  using put_capacity_bound [of 1 "[(''a'', 1::nat), (''b'', 2), (''c'', 3)]"]
  by (simp add: put_size construct_def)

subsection \<open>References into the store\<close>

lemma ref_ok_simps [simp]:
  "ref_ok h None" "ref_ok h (Some a) = (a < length h)"
  by (simp_all add: ref_ok_def)

lemma refs_okD:
  assumes "refs_ok c"
  shows "head c = Some a \<Longrightarrow> a < length (heap c)"
    and "tail c = Some a \<Longrightarrow> a < length (heap c)"
    and "a < length (heap c) \<Longrightarrow> newer (heap c ! a) = Some b \<Longrightarrow> b < length (heap c)"
    and "a < length (heap c) \<Longrightarrow> older (heap c ! a) = Some b \<Longrightarrow> b < length (heap c)"
    and "map_of (keymap c) k = Some a \<Longrightarrow> a < length (heap c) \<and> key (heap c ! a) = k"
proof -
  from assms have h: "ref_ok (heap c) (head c)" and t: "ref_ok (heap c) (tail c)"
    and l: "\<forall>e \<in> set (heap c). ref_ok (heap c) (newer e) \<and> ref_ok (heap c) (older e)"
    and m: "\<forall>(k, a) \<in> set (keymap c). a < length (heap c) \<and> key (heap c ! a) = k"
    by (simp_all add: refs_ok_def list_all_iff)
  from h show "head c = Some a \<Longrightarrow> a < length (heap c)" by simp
  from t show "tail c = Some a \<Longrightarrow> a < length (heap c)" by simp
  from l show "a < length (heap c) \<Longrightarrow> newer (heap c ! a) = Some b \<Longrightarrow> b < length (heap c)"
    by (metis nth_mem ref_ok_simps(2))
  from l show "a < length (heap c) \<Longrightarrow> older (heap c ! a) = Some b \<Longrightarrow> b < length (heap c)"
    by (metis nth_mem ref_ok_simps(2))
  from m show "map_of (keymap c) k = Some a \<Longrightarrow> a < length (heap c) \<and> key (heap c ! a) = k"
    by (auto dest: map_of_SomeD)
qed






text \<open>\<open>shift\<close> on a cache with a head entry, and without.\<close>

lemma shift_spec:
  "(head c = None \<longrightarrow> shift c = (c, None)) \<and>
   (\<forall>e. head c = Some e \<and> e < length (heap c) \<longrightarrow>
      snd (shift c) = Some e \<and>
      head (fst (shift c)) = newer (heap c ! e) \<and>
      newer (heap (fst (shift c)) ! e) = None \<and>
      older (heap (fst (shift c)) ! e) = None \<and>
      map_of (keymap (fst (shift c))) = (map_of (keymap c))(key (heap c ! e) := None) \<and>
      key (heap c ! e) \<notin> set (keys (fst (shift c)))) \<and>
   size_lru (fst (shift c)) = size_lru c"
  by (auto simp: shift_def Let_def keys_def newer_set_newer older_set_older delete_conv'
           delete_keys split: option.splits)

text \<open>
  Claim C3 as stated fails on the fresh cache of limit 0: \<open>put\<close> evicts an entry,
  and there was no head entry before the call.
\<close>

theorem put_evicts_counterexample:
  "snd (put (construct 0 :: nat cache) ''a'' 1) = Some 0 \<and> head (construct 0 :: nat cache) = None"
  by (simp add: construct_def put_def shift_def Let_def)

text \<open>
  Claim C3, as amended. When \<open>put\<close> returns an evicted entry \<open>e\<close>, then \<open>size = limit\<close>
  held before, and: if the cache had a tail, \<open>e\<close> is the head entry observed before the
  call, with its key unchanged; if it had no tail, \<open>e\<close> is the entry just inserted, whose
  key is the key that was put.
\<close>

theorem put_evicts_head:
  "refs_ok c \<Longrightarrow> snd (put c k v) = Some e \<Longrightarrow>
   size_lru c = limit c \<and>
   (case tail c of
      Some t \<Rightarrow> head c = Some e \<and> key (heap (fst (put c k v)) ! e) = key (heap c ! e)
    | None \<Rightarrow> e = length (heap c) \<and> key (heap (fst (put c k v)) ! e) = k)"
  by (auto simp: put_def shift_def Let_def nth_append dest: refs_okD(1)
           split: option.splits if_splits)

theorem put_evicts_head_witness:
  "refs_ok (cache_a 1) \<and> snd (put (cache_a 1) ''b'' 2) = Some 0 \<and>
   size_lru (cache_a 1) = limit (cache_a 1) \<and> head (cache_a 1) = Some 0 \<and>
   key (heap (fst (put (cache_a 1) ''b'' 2)) ! 0) = ''a''"
proof -
  have 1: "refs_ok (cache_a 1)" by code_simp
  have 2: "snd (put (cache_a 1) ''b'' 2) = Some 0" by code_simp
  have 3: "tail (cache_a 1) = Some 0" "key (heap (cache_a 1) ! 0) = ''a''" by code_simp+
  from put_evicts_head [OF 1 2] 1 2 3 show ?thesis by simp
qed

lemma get_absent: "own_binding c k = None \<Longrightarrow> get_own c k r = (c, Undefined)"
  by (simp add: get_own_def get_entry_def own_binding_def)

lemma set_absent_key_own:
  "refs_ok c \<Longrightarrow> own_binding c k = None \<Longrightarrow>
   fst (set_own c k v) = fst (put c k v) \<and>
   snd (set_own c k v) = map_option (\<lambda>e. val (heap (fst (put c k v)) ! e)) (snd (put c k v)) \<and>
   snd (set_own c k v) =
     (if size_lru c \<noteq> limit c then None
      else case tail c of
             None \<Rightarrow> Some v
           | Some t \<Rightarrow> (case head c of None \<Rightarrow> None | Some h \<Rightarrow> Some (val (heap c ! h))))"
  by (auto simp: set_own_def get_absent put_def shift_def Let_def nth_append dest: refs_okD(1)
           split: option.splits prod.splits)

text \<open>
  Claim C2 at the input \<open>construct(0); put("a", 1); put("b", 2)\<close>. Before the second
  \<open>put\<close>, \<open>size = limit = 0\<close>, the dictionary is empty, \<open>head\<close> is none and \<open>tail\<close>
  still refers to the evicted entry. The second \<open>put\<close> returns nothing, leaves \<open>size\<close>
  at 0 and keeps \<open>"b"\<close> in the dictionary.
\<close>

theorem put_limit_zero_keeps_entry:
  "size_lru (cache_a 0) = limit (cache_a 0) \<and> keys (cache_a 0) = [] \<and>
   head (cache_a 0) = None \<and> tail (cache_a 0) = Some 0 \<and>
   snd (put (cache_a 0) ''b'' 2) = None \<and>
   size_lru (fst (put (cache_a 0) ''b'' 2)) = 0 \<and>
   keys (fst (put (cache_a 0) ''b'' 2)) = [''b''] \<and>
   head (fst (put (cache_a 0) ''b'' 2)) = None"
  by code_simp

subsection \<open>Removal and touch\<close>

lemma remove_absent: "own_binding c k = None \<Longrightarrow> remove_own c k = (c, None)"
  by (simp add: remove_own_def remove_entry_def own_binding_def)

text \<open>
  What removing a bound key does to the state: the binding is deleted, the neighbours
  of the entry are linked to each other, and \<open>head\<close> and \<open>tail\<close> move off the entry.
\<close>

lemma remove_present:
  assumes ok: "refs_ok c" and f: "own_binding c k = Some e"
  shows "snd (remove_own c k) = Some (val (heap c ! e))"
    and "keymap (fst (remove_own c k)) = AList.delete k (keymap c)"
    and "size_lru (fst (remove_own c k)) = size_lru c - 1"
    and "older (heap c ! e) = Some p \<Longrightarrow> newer (heap (fst (remove_own c k)) ! p) = newer (heap c ! e)"
    and "newer (heap c ! e) = Some n \<Longrightarrow> older (heap (fst (remove_own c k)) ! n) = older (heap c ! e)"
    and "head (fst (remove_own c k)) = (if older (heap c ! e) = None then newer (heap c ! e) else head c)"
    and "tail (fst (remove_own c k)) = (if newer (heap c ! e) = None then older (heap c ! e) else tail c)"
proof -
  from f have m: "map_of (keymap c) k = Some e" by (simp add: own_binding_def)
  from refs_okD(5) [OF ok m] have e: "e < length (heap c)" and ke: "key (heap c ! e) = k"
    by simp_all
  show "snd (remove_own c k) = Some (val (heap c ! e))"
    by (simp add: remove_own_def remove_entry_def m Let_def split: option.splits)
  show "keymap (fst (remove_own c k)) = AList.delete k (keymap c)"
    by (simp add: remove_own_def remove_entry_def m ke Let_def split: option.splits)
  show "size_lru (fst (remove_own c k)) = size_lru c - 1"
    by (simp add: remove_own_def remove_entry_def m Let_def split: option.splits)
  show "older (heap c ! e) = Some p \<Longrightarrow> newer (heap (fst (remove_own c k)) ! p) = newer (heap c ! e)"
    using refs_okD(4) [OF ok e, of p]
    by (simp add: remove_own_def remove_entry_def m Let_def newer_set_newer split: option.splits)
  show "newer (heap c ! e) = Some n \<Longrightarrow> older (heap (fst (remove_own c k)) ! n) = older (heap c ! e)"
    using refs_okD(3) [OF ok e, of n]
    by (simp add: remove_own_def remove_entry_def m Let_def older_set_older split: option.splits)
  show "head (fst (remove_own c k)) = (if older (heap c ! e) = None then newer (heap c ! e) else head c)"
    by (simp add: remove_own_def remove_entry_def m Let_def split: option.splits)
  show "tail (fst (remove_own c k)) = (if newer (heap c ! e) = None then older (heap c ! e) else tail c)"
    by (simp add: remove_own_def remove_entry_def m Let_def split: option.splits)
qed

subsection \<open>Every operation keeps the references well-formed\<close>

lemma set_update_subset: "set (AList.update k v al) \<subseteq> insert (k, v) (set al)"
  by (induction al) auto

lemma set_delete: "set (AList.delete k al) = {p \<in> set al. fst p \<noteq> k}"
  by (auto simp: AList.delete_eq)

lemma refs_ok_iff:
  "refs_ok c \<longleftrightarrow>
     ref_ok (heap c) (head c) \<and> ref_ok (heap c) (tail c) \<and>
     (\<forall>a < length (heap c).
        ref_ok (heap c) (newer (heap c ! a)) \<and> ref_ok (heap c) (older (heap c ! a))) \<and>
     (\<forall>p \<in> set (keymap c). snd p < length (heap c) \<and> key (heap c ! snd p) = fst p)"
  by (simp add: refs_ok_def list_all_iff all_set_conv_all_nth [where xs = "heap c"]
        case_prod_beta)

lemma ref_ok_upd [simp]:
  "ref_ok (set_newer h a x) p = ref_ok h p"
  "ref_ok (set_older h a x) p = ref_ok h p"
  "ref_ok (set_val h a y) p = ref_ok h p"
  by (cases p; simp)+

lemma ref_ok_mono: "ref_ok h p \<Longrightarrow> length h \<le> length h' \<Longrightarrow> ref_ok h' p"
  by (cases p) simp_all

lemma refs_ok_construct: "refs_ok (construct lim)"
  by (simp add: refs_ok_def construct_def)

lemma refs_ok_removeAll: "refs_ok c \<Longrightarrow> refs_ok (removeAll_lru c)"
  by (simp add: refs_ok_def removeAll_lru_def)

lemma refs_ok_set_newer:
  "refs_ok c \<Longrightarrow> ref_ok (heap c) x \<Longrightarrow> refs_ok (c\<lparr>heap := set_newer (heap c) a x\<rparr>)"
  by (simp add: refs_ok_iff newer_set_newer)

lemma refs_ok_set_older:
  "refs_ok c \<Longrightarrow> ref_ok (heap c) x \<Longrightarrow> refs_ok (c\<lparr>heap := set_older (heap c) a x\<rparr>)"
  by (simp add: refs_ok_iff older_set_older)

lemma refs_ok_set_val: "refs_ok c \<Longrightarrow> refs_ok (c\<lparr>heap := set_val (heap c) a x\<rparr>)"
  by (simp add: refs_ok_iff)

lemma refs_ok_head: "refs_ok c \<Longrightarrow> ref_ok (heap c) x \<Longrightarrow> refs_ok (c\<lparr>head := x\<rparr>)"
  by (simp add: refs_ok_iff)

lemma refs_ok_tail: "refs_ok c \<Longrightarrow> ref_ok (heap c) x \<Longrightarrow> refs_ok (c\<lparr>tail := x\<rparr>)"
  by (simp add: refs_ok_iff)

lemma refs_ok_size: "refs_ok c \<Longrightarrow> refs_ok (c\<lparr>size_lru := x\<rparr>)"
  by (simp add: refs_ok_iff)

lemma refs_ok_delete: "refs_ok c \<Longrightarrow> refs_ok (c\<lparr>keymap := AList.delete k (keymap c)\<rparr>)"
  by (simp add: refs_ok_iff set_delete)

lemma refs_ok_links:
  assumes "refs_ok c" "a < length (heap c)"
  shows "ref_ok (heap c) (newer (heap c ! a))" "ref_ok (heap c) (older (heap c ! a))"
  using assms by (simp_all add: refs_ok_iff)

lemma refs_ok_ends:
  assumes "refs_ok c"
  shows "ref_ok (heap c) (head c)" "ref_ok (heap c) (tail c)"
  using assms by (simp_all add: refs_ok_iff)

lemma refs_ok_alloc:
  assumes "refs_ok c"
  shows "refs_ok (c\<lparr>heap := heap c @ [\<lparr>newer = None, older = None, key = k, val = v\<rparr>],
                   keymap := AList.update k (length (heap c)) (keymap c)\<rparr>)"
proof -
  from assms have
    l: "\<forall>a < length (heap c).
        ref_ok (heap c) (newer (heap c ! a)) \<and> ref_ok (heap c) (older (heap c ! a))"
    and m: "\<forall>p \<in> set (keymap c). snd p < length (heap c) \<and> key (heap c ! snd p) = fst p"
    and e: "ref_ok (heap c) (head c)" "ref_ok (heap c) (tail c)"
    by (simp_all add: refs_ok_iff)
  let ?h = "heap c @ [\<lparr>newer = None, older = None, key = k, val = v\<rparr>]"
  have len: "length (heap c) \<le> length ?h" by simp
  have 1: "\<forall>a < length ?h. ref_ok ?h (newer (?h ! a)) \<and> ref_ok ?h (older (?h ! a))"
  proof (intro allI impI)
    fix a assume "a < length ?h"
    then consider "a < length (heap c)" | "a = length (heap c)" by fastforce
    then show "ref_ok ?h (newer (?h ! a)) \<and> ref_ok ?h (older (?h ! a))"
    proof cases
      case 1
      with l have "ref_ok (heap c) (newer (heap c ! a))" "ref_ok (heap c) (older (heap c ! a))"
        by simp_all
      with 1 show ?thesis
        using ref_ok_mono [OF _ len] by (simp add: nth_append)
    next
      case 2
      then show ?thesis by simp
    qed
  qed
  have 2: "\<forall>p \<in> set (AList.update k (length (heap c)) (keymap c)).
             snd p < length ?h \<and> key (?h ! snd p) = fst p"
  proof
    fix p assume "p \<in> set (AList.update k (length (heap c)) (keymap c))"
    with set_update_subset have "p = (k, length (heap c)) \<or> p \<in> set (keymap c)" by fastforce
    then show "snd p < length ?h \<and> key (?h ! snd p) = fst p"
      using m by (auto simp: nth_append)
  qed
  from 1 2 e show ?thesis
    using ref_ok_mono [OF _ len] by (simp add: refs_ok_iff)
qed

lemma refs_ok_shift: "refs_ok c \<Longrightarrow> refs_ok (fst (shift c))"
proof (cases "head c")
  case None
  assume "refs_ok c"
  with None show ?thesis by (simp add: shift_def)
next
  case (Some e)
  assume ok: "refs_ok c"
  from ok Some have e: "e < length (heap c)" by (rule refs_okD(1))
  let ?c1 = "case newer (heap c ! e) of
               Some n \<Rightarrow> c\<lparr>head := Some n, heap := set_older (heap c) n None\<rparr>
             | None \<Rightarrow> c\<lparr>head := None\<rparr>"
  have c1: "refs_ok ?c1"
  proof (cases "newer (heap c ! e)")
    case None
    with ok show ?thesis by (simp add: refs_ok_head)
  next
    case (Some n)
    from refs_ok_links(1) [OF ok e] Some have "ref_ok (heap c) (Some n)" by simp
    from refs_ok_set_older [OF refs_ok_head [OF ok this], of None n] Some
    show ?thesis by simp
  qed
  have len: "length (heap ?c1) = length (heap c)" by (simp split: option.splits)
  from refs_ok_set_older [OF c1, of None e]
  have "refs_ok (?c1\<lparr>heap := set_older (heap ?c1) e None\<rparr>)" by simp
  from refs_ok_set_newer [OF this, of None e]
  have "refs_ok (?c1\<lparr>heap := set_newer (set_older (heap ?c1) e None) e None\<rparr>)" by simp
  from refs_ok_delete [OF this] Some show ?thesis
    by (simp add: shift_def Let_def)
qed

lemma put_eq:
  "put c k v =
     (if size_lru c = limit c then shift (put_link c k v)
      else ((put_link c k v)\<lparr>size_lru := size_lru c + 1\<rparr>, None))"
  by (simp add: put_def put_link_def Let_def split: option.splits)

lemma refs_ok_put_link: "refs_ok c \<Longrightarrow> refs_ok (put_link c k v)"
proof -
  assume ok: "refs_ok c"
  let ?e = "length (heap c)"
  let ?c1 = "c\<lparr>heap := heap c @ [\<lparr>newer = None, older = None, key = k, val = v\<rparr>],
               keymap := AList.update k ?e (keymap c)\<rparr>"
  let ?c2 = "case tail ?c1 of
               Some t \<Rightarrow> ?c1\<lparr>heap := set_older (set_newer (heap ?c1) t (Some ?e)) ?e (Some t)\<rparr>
             | None \<Rightarrow> ?c1\<lparr>head := Some ?e\<rparr>"
  have c1: "refs_ok ?c1" using ok by (rule refs_ok_alloc)
  have e: "ref_ok (heap ?c1) (Some ?e)" by simp
  have c2: "refs_ok ?c2"
  proof (cases "tail c")
    case None
    with refs_ok_head [OF c1 e] show ?thesis by simp
  next
    case (Some t)
    from refs_ok_ends(2) [OF c1] Some have t: "ref_ok (heap ?c1) (Some t)" by simp
    from refs_ok_set_newer [OF c1 e, of t]
    have "refs_ok (?c1\<lparr>heap := set_newer (heap ?c1) t (Some ?e)\<rparr>)" .
    from refs_ok_set_older [OF this, of "Some t" ?e] t Some show ?thesis by simp
  qed
  have len: "length (heap ?c2) = Suc ?e" by (simp split: option.splits)
  from refs_ok_tail [OF c2, of "Some ?e"] len show ?thesis
    by (simp add: put_link_def Let_def)
qed

lemma refs_ok_put: "refs_ok c \<Longrightarrow> refs_ok (fst (put c k v))"
  using refs_ok_shift [of "put_link c k v"] refs_ok_size [of "put_link c k v"]
  by (simp add: put_eq refs_ok_put_link)

lemma refs_ok_get: "refs_ok c \<Longrightarrow> refs_ok (fst (get_own c k r))"
proof (cases "map_of (keymap c) k")
  case None
  assume "refs_ok c"
  with None show ?thesis by (simp add: get_own_def get_entry_def)
next
  case (Some e)
  assume ok: "refs_ok c"
  from refs_okD(5) [OF ok Some] have e: "e < length (heap c)" by simp
  show ?thesis
  proof (cases "Some e = tail c")
    case True
    then have "tail c = Some e" by simp
    with ok Some show ?thesis by (simp add: get_own_def get_entry_def)
  next
    case False
    let ?c1 = "case newer (heap c ! e) of
                 Some n \<Rightarrow>
                   let c' = (if Some e = head c then c\<lparr>head := Some n\<rparr> else c)
                   in c'\<lparr>heap := set_older (heap c') n (older (heap c' ! e))\<rparr>
               | None \<Rightarrow> c"
    let ?c2 = "case older (heap ?c1 ! e) of
                 Some p \<Rightarrow> ?c1\<lparr>heap := set_newer (heap ?c1) p (newer (heap ?c1 ! e))\<rparr>
               | None \<Rightarrow> ?c1"
    let ?c3 = "?c2\<lparr>heap := set_newer (heap ?c2) e None\<rparr>"
    let ?c4 = "?c3\<lparr>heap := set_older (heap ?c3) e (tail ?c3)\<rparr>"
    let ?c5 = "case tail ?c4 of
                 Some t \<Rightarrow> ?c4\<lparr>heap := set_newer (heap ?c4) t (Some e)\<rparr>
               | None \<Rightarrow> ?c4"
    have c1: "refs_ok ?c1 \<and> length (heap ?c1) = length (heap c)"
    proof (cases "newer (heap c ! e)")
      case None
      with ok show ?thesis by simp
    next
      case (Some n)
      let ?c' = "if Some e = head c then c\<lparr>head := Some n\<rparr> else c"
      from refs_ok_links(1) [OF ok e] Some have "ref_ok (heap c) (Some n)" by simp
      with ok have c': "refs_ok ?c'" by (simp add: refs_ok_head)
      have "ref_ok (heap ?c') (older (heap ?c' ! e))"
        using refs_ok_links(2) [OF ok e] by simp
      from refs_ok_set_older [OF c' this, of n] Some show ?thesis
        by (simp add: Let_def)
    qed
    then have e1: "e < length (heap ?c1)" using e by simp
    have c2: "refs_ok ?c2 \<and> length (heap ?c2) = length (heap c)"
    proof (cases "older (heap ?c1 ! e)")
      case None
      with c1 show ?thesis by simp
    next
      case (Some p)
      from c1 have ok1: "refs_ok ?c1" ..
      from refs_ok_set_newer [OF ok1 refs_ok_links(1) [OF ok1 e1], of p] Some c1
      show ?thesis by simp
    qed
    then have ok2: "refs_ok ?c2" ..
    from refs_ok_set_newer [OF ok2, of None e] c2
    have c3: "refs_ok ?c3 \<and> length (heap ?c3) = length (heap c)" by simp
    then have ok3: "refs_ok ?c3" ..
    from refs_ok_set_older [OF ok3 refs_ok_ends(2) [OF ok3], of e] c3
    have c4: "refs_ok ?c4 \<and> length (heap ?c4) = length (heap c)" by simp
    then have ok4: "refs_ok ?c4" ..
    have c5: "refs_ok ?c5 \<and> length (heap ?c5) = length (heap c)"
    proof (cases "tail ?c4")
      case None
      with c4 show ?thesis by simp
    next
      case (Some t)
      from c4 e have "ref_ok (heap ?c4) (Some e)" by simp
      from refs_ok_set_newer [OF ok4 this, of t] Some c4 show ?thesis by simp
    qed
    then have ok5: "refs_ok ?c5" ..
    from c5 e have "ref_ok (heap ?c5) (Some e)" by simp
    from refs_ok_tail [OF ok5 this] have "refs_ok (?c5\<lparr>tail := Some e\<rparr>)" .
    moreover have "fst (get_own c k r) = ?c5\<lparr>tail := Some e\<rparr>"
      using Some False by (simp add: get_own_def get_entry_def Let_def)
    ultimately show ?thesis by simp
  qed
qed

lemma refs_ok_remove: "refs_ok c \<Longrightarrow> refs_ok (fst (remove_own c k))"
proof (cases "map_of (keymap c) k")
  case None
  assume "refs_ok c"
  with None show ?thesis by (simp add: remove_own_def remove_entry_def)
next
  case (Some e)
  assume ok: "refs_ok c"
  from refs_okD(5) [OF ok Some] have e: "e < length (heap c)" by simp
  let ?c1 = "c\<lparr>keymap := AList.delete (key (heap c ! e)) (keymap c)\<rparr>"
  have c1: "refs_ok ?c1" using ok by (rule refs_ok_delete)
  have e1: "e < length (heap ?c1)" using e by simp
  note n = refs_ok_links(1) [OF c1 e1] and p = refs_ok_links(2) [OF c1 e1]
  let ?c2 = "case (newer (heap ?c1 ! e), older (heap ?c1 ! e)) of
               (Some n, Some p) \<Rightarrow>
                 ?c1\<lparr>heap := set_older (set_newer (heap ?c1) p (Some n)) n (Some p)\<rparr>
             | (Some n, None) \<Rightarrow> ?c1\<lparr>heap := set_older (heap ?c1) n None, head := Some n\<rparr>
             | (None, Some p) \<Rightarrow> ?c1\<lparr>heap := set_newer (heap ?c1) p None, tail := Some p\<rparr>
             | (None, None) \<Rightarrow> ?c1\<lparr>head := None, tail := None\<rparr>"
  have c2: "refs_ok ?c2"
  proof (cases "newer (heap c ! e)")
    case None
    note nn = this
    show ?thesis
    proof (cases "older (heap c ! e)")
      case None
      from refs_ok_tail [OF refs_ok_head [OF c1, of None], of None] nn None
      show ?thesis by simp
    next
      case (Some p')
      with p have rp: "ref_ok (heap ?c1) (Some p')" by simp
      from refs_ok_set_newer [OF c1, of None p']
      have "refs_ok (?c1\<lparr>heap := set_newer (heap ?c1) p' None\<rparr>)" by simp
      from refs_ok_tail [OF this, of "Some p'"] rp nn Some show ?thesis by simp
    qed
  next
    case (Some n')
    note nn = this
    with n have rn: "ref_ok (heap ?c1) (Some n')" by simp
    show ?thesis
    proof (cases "older (heap c ! e)")
      case None
      from refs_ok_set_older [OF c1, of None n']
      have "refs_ok (?c1\<lparr>heap := set_older (heap ?c1) n' None\<rparr>)" by simp
      from refs_ok_head [OF this, of "Some n'"] rn nn None show ?thesis by simp
    next
      case (Some p')
      with p have rp: "ref_ok (heap ?c1) (Some p')" by simp
      from refs_ok_set_newer [OF c1 rn, of p']
      have "refs_ok (?c1\<lparr>heap := set_newer (heap ?c1) p' (Some n')\<rparr>)" .
      from refs_ok_set_older [OF this, of "Some p'" n'] rp nn Some show ?thesis by simp
    qed
  qed
  have "fst (remove_own c k) = ?c2\<lparr>size_lru := size_lru ?c2 - 1\<rparr>"
    using Some by (simp add: remove_own_def remove_entry_def Let_def split: option.splits)
  with refs_ok_size [OF c2] show ?thesis by simp
qed

lemma refs_ok_set: "refs_ok c \<Longrightarrow> refs_ok (fst (set_own c k v))"
proof -
  assume ok: "refs_ok c"
  obtain c1 r where g: "get_own c k True = (c1, r)" by (cases "get_own c k True")
  from refs_ok_get [OF ok, of k True] g have c1: "refs_ok c1" by simp
  show ?thesis
  proof (cases "\<exists>e. r = Entry e")
    case True
    then obtain e where "r = Entry e" ..
    with g refs_ok_set_val [OF c1, of e v] show ?thesis by (simp add: set_own_def)
  next
    case False
    then have "fst (set_own c k v) = fst (put c1 k v)"
      using g by (cases r) (simp_all add: set_own_def split: prod.splits option.splits)
    with refs_ok_put [OF c1] show ?thesis by simp
  qed
qed

subsection \<open>Chains\<close>

lemma chain_append:
  "chain h p (xs @ ys) n \<longleftrightarrow> chain h p xs (first_of ys n) \<and> chain h (last_of xs p) ys n"
proof (induction xs arbitrary: p)
  case Nil
  then show ?case by simp
next
  case (Cons x xs)
  show ?case
  proof (cases xs)
    case Nil
    then show ?thesis by (cases ys) auto
  next
    case (Cons y zs)
    with Cons.IH [of "Some x"] show ?thesis by auto
  qed
qed

lemma chain_range: "chain h p xs n \<Longrightarrow> x \<in> set xs \<Longrightarrow> x < length h"
  by (induction xs arbitrary: p) auto

lemma chain_set_newer:
  "a \<notin> set xs \<Longrightarrow> chain (set_newer h a v) p xs n = chain h p xs n"
  by (induction xs arbitrary: p) (auto simp: newer_set_newer)

lemma chain_set_older:
  "a \<notin> set xs \<Longrightarrow> chain (set_older h a v) p xs n = chain h p xs n"
  by (induction xs arbitrary: p) (auto simp: older_set_older)

lemma chain_set_val: "chain (set_val h a v) p xs n = chain h p xs n"
  by (induction xs arbitrary: p) auto

lemma chain_alloc: "chain h p xs n \<Longrightarrow> chain (h @ [e]) p xs n"
  by (induction xs arbitrary: p) (auto simp: nth_append)

lemma chain_last_newer:
  "chain h p (xs @ [a]) n \<Longrightarrow> a \<notin> set xs \<Longrightarrow> chain (set_newer h a v) p (xs @ [a]) v"
  by (simp add: chain_append chain_set_newer newer_set_newer)

lemma chain_first_older:
  "chain h p (a # xs) n \<Longrightarrow> a \<notin> set xs \<Longrightarrow> chain (set_older h a v) v (a # xs) n"
  by (simp add: chain_set_older older_set_older)

lemma walk_newer_chain: "chain h p xs None \<Longrightarrow> walk_newer h (first_of xs None) = Some xs"
proof (induction xs arbitrary: p)
  case Nil
  show ?case by (simp add: walk_newer.simps)
next
  case (Cons x xs)
  from Cons.prems have "chain h (Some x) xs None" by simp
  then have "walk_newer h (first_of xs None) = Some xs" by (rule Cons.IH)
  with Cons.prems show ?case
    by (subst walk_newer.simps) simp
qed

lemma walk_older_chain: "chain h None xs n \<Longrightarrow> walk_older h (last_of xs None) = Some (rev xs)"
proof (induction xs arbitrary: n rule: rev_induct)
  case Nil
  show ?case by (simp add: walk_older.simps)
next
  case (snoc x xs)
  from snoc.prems have 1: "chain h None xs (Some x)" and 2: "chain h (last_of xs None) [x] n"
    by (simp_all add: chain_append)
  from snoc.IH [OF 1] have "walk_older h (last_of xs None) = Some (rev xs)" .
  moreover from 2 have "older (h ! x) = last_of xs None" by simp
  moreover have "last_of (xs @ [x]) None = Some x" by (cases xs) simp_all
  ultimately show ?case
    by (subst walk_older.simps) simp
qed

subsection \<open>Every operation keeps the chain that ends at the tail\<close>

lemma first_of_append [simp]: "first_of (xs @ ys) n = first_of xs (first_of ys n)"
  by (cases xs) simp_all

lemma last_of_append [simp]: "last_of (xs @ ys) p = last_of ys (last_of xs p)"
  by (cases ys) (simp_all, cases xs, simp_all)

lemma last_of_Cons: "last_of (x # xs) p = last_of xs (Some x)"
  by (cases xs) simp_all

lemma tail_linkedD:
  assumes "tail_linked c xs"
  shows "refs_ok c" "distinct xs" "chain (heap c) None xs None"
    "tail c = last_of xs None" "\<forall>p \<in> set (keymap c). snd p \<in> set xs"
  using assms by (auto simp: tail_linked_def list_all_iff)

lemma tail_linkedI:
  "refs_ok c \<Longrightarrow> distinct xs \<Longrightarrow> chain (heap c) None xs None \<Longrightarrow>
   tail c = last_of xs None \<Longrightarrow>
   \<forall>p \<in> set (keymap c). snd p \<in> set xs \<Longrightarrow> tail_linked c xs"
  by (auto simp: tail_linked_def list_all_iff)

lemma tail_linked_keymap:
  assumes "tail_linked c xs" "map_of (keymap c) k = Some a"
  shows "a \<in> set xs" "a < length (heap c)" "key (heap c ! a) = k"
  using tail_linkedD(5) [OF assms(1)] refs_okD(5) [OF tail_linkedD(1) [OF assms(1)] assms(2)]
    map_of_SomeD [OF assms(2)]
  by auto

lemma tail_linked_size [simp]: "tail_linked (c\<lparr>size_lru := s\<rparr>) xs = tail_linked c xs"
  by (simp add: tail_linked_def refs_ok_def)

lemma tail_linked_construct: "tail_linked (construct lim) []"
  by (simp add: tail_linked_def refs_ok_construct) (simp add: construct_def)

lemma tail_linked_removeAll: "refs_ok c \<Longrightarrow> tail_linked (removeAll_lru c) []"
  by (simp add: tail_linked_def refs_ok_removeAll) (simp add: removeAll_lru_def)

lemma tail_linked_set_val:
  "tail_linked c xs \<Longrightarrow> tail_linked (c\<lparr>heap := set_val (heap c) e v\<rparr>) xs"
  using refs_ok_set_val [of c e v]
  by (simp add: tail_linked_def chain_set_val)

lemma put_link_fields:
  "head (put_link c k v) = (if tail c = None then Some (length (heap c)) else head c)"
  "tail (put_link c k v) = Some (length (heap c))"
  "keymap (put_link c k v) = AList.update k (length (heap c)) (keymap c)"
  "size_lru (put_link c k v) = size_lru c"
  "limit (put_link c k v) = limit c"
  "length (heap (put_link c k v)) = Suc (length (heap c))"
  by (simp_all add: put_link_def Let_def split: option.splits)

lemma put_link_heap:
  "heap (put_link c k v) =
     (case tail c of
        None \<Rightarrow> heap c @ [\<lparr>newer = None, older = None, key = k, val = v\<rparr>]
      | Some t \<Rightarrow>
          set_older
            (set_newer (heap c @ [\<lparr>newer = None, older = None, key = k, val = v\<rparr>]) t
               (Some (length (heap c))))
            (length (heap c)) (Some t))"
  by (simp add: put_link_def Let_def split: option.splits)

lemma tail_linked_put_link:
  assumes l: "tail_linked c xs"
  shows "tail_linked (put_link c k v) (xs @ [length (heap c)])"
proof -
  let ?e = "length (heap c)"
  let ?new = "\<lparr>newer = None, older = None, key = k, val = v\<rparr>"
  note d = tail_linkedD [OF l]
  have fresh: "?e \<notin> set xs" using chain_range [OF d(3), of ?e] by auto
  have ch: "chain (heap (put_link c k v)) None (xs @ [?e]) None"
  proof (cases xs rule: rev_cases)
    case Nil
    with d(4) have "tail c = None" by simp
    with Nil show ?thesis by (simp add: put_link_heap)
  next
    case (snoc ys t)
    with d(4) have t: "tail c = Some t" by simp
    from d(2) snoc have t_ys: "t \<notin> set ys" by simp
    from fresh snoc have te: "t \<noteq> ?e" by auto
    from chain_range [OF d(3), of t] snoc have tl: "t < ?e" by simp
    from d(3) snoc have "chain (heap c @ [?new]) None (ys @ [t]) None"
      by (simp add: chain_alloc)
    from chain_last_newer [OF this t_ys, of "Some ?e"]
    have "chain (set_newer (heap c @ [?new]) t (Some ?e)) None (ys @ [t]) (Some ?e)" .
    with fresh snoc
    have 1: "chain (heap (put_link c k v)) None (ys @ [t]) (Some ?e)"
      by (simp add: put_link_heap t chain_set_older)
    have 2: "chain (heap (put_link c k v)) (Some t) [?e] None"
      using te by (simp add: put_link_heap t older_set_older newer_set_newer)
    from 1 2 snoc show ?thesis by (simp add: chain_append)
  qed
  have km: "\<forall>p \<in> set (keymap (put_link c k v)). snd p \<in> set (xs @ [?e])"
    using d(5) set_update_subset [of k ?e "keymap c"] by (auto simp: put_link_fields)
  show ?thesis
    using refs_ok_put_link [OF d(1)] d(2) fresh ch km
    by (intro tail_linkedI) (simp_all add: put_link_fields)
qed

lemma shift_fields:
  assumes "head c = Some x"
  shows "snd (shift c) = Some x"
    and "head (fst (shift c)) = newer (heap c ! x)"
    and "keymap (fst (shift c)) = AList.delete (key (heap c ! x)) (keymap c)"
    and "heap (fst (shift c)) =
           set_newer (set_older
             (case newer (heap c ! x) of None \<Rightarrow> heap c | Some n \<Rightarrow> set_older (heap c) n None)
             x None) x None"
  using assms by (simp_all add: shift_def Let_def split: option.splits)

lemma shift_no_head: "head c = None \<Longrightarrow> shift c = (c, None)"
  by (simp add: shift_def)

lemma tail_linked_shift:
  assumes l: "tail_linked c (x # y # ys)" and hx: "head c = Some x"
  shows "tail_linked (fst (shift c)) (y # ys)"
proof -
  note d = tail_linkedD [OF l]
  from d(3) have ny: "newer (heap c ! x) = Some y" and c2: "chain (heap c) (Some x) (y # ys) None"
    by simp_all
  from d(2) have x_notin: "x \<notin> set (y # ys)" and y_notin: "y \<notin> set ys" by auto
  from chain_first_older [OF c2 y_notin, of None]
  have "chain (set_older (heap c) y None) None (y # ys) None" .
  then have ch: "chain (heap (fst (shift c))) None (y # ys) None"
    by (simp only: shift_fields(4) [OF hx] ny option.case chain_set_newer [OF x_notin]
          chain_set_older [OF x_notin])
  have km: "\<forall>p \<in> set (keymap (fst (shift c))). snd p \<in> set (y # ys)"
  proof
    fix p assume "p \<in> set (keymap (fst (shift c)))"
    then have p: "p \<in> set (keymap c)" and k: "fst p \<noteq> key (heap c ! x)"
      by (simp_all add: shift_fields(3) [OF hx] set_delete)
    from d(1) p have "key (heap c ! snd p) = fst p" by (simp add: refs_ok_iff)
    with k have "snd p \<noteq> x" by auto
    with d(5) p show "snd p \<in> set (y # ys)" by auto
  qed
  show ?thesis
    using refs_ok_shift [OF d(1)] d(2) ch km d(4)
    by (intro tail_linkedI) simp_all
qed

lemma tail_linked_shift_last:
  assumes l: "tail_linked c [x]" and hx: "head c = Some x"
  shows "tail_linked (fst (shift c)) [x]"
proof -
  note d = tail_linkedD [OF l]
  from d(3) have nx: "newer (heap c ! x) = None" and xl: "x < length (heap c)" by simp_all
  have ch: "chain (heap (fst (shift c))) None [x] None"
    using xl by (simp add: shift_fields(4) [OF hx] nx newer_set_newer older_set_older)
  have km: "\<forall>p \<in> set (keymap (fst (shift c))). snd p \<in> set [x]"
    using d(5) by (simp add: shift_fields(3) [OF hx] set_delete)
  show ?thesis
    using refs_ok_shift [OF d(1)] ch km d(4)
    by (intro tail_linkedI) simp_all
qed

lemma remove_heap:
  assumes "map_of (keymap c) k = Some e"
  shows "heap (fst (remove_own c k)) =
     (case newer (heap c ! e) of
        None \<Rightarrow> (case older (heap c ! e) of
                   None \<Rightarrow> heap c
                 | Some p \<Rightarrow> set_newer (heap c) p None)
      | Some n \<Rightarrow> (case older (heap c ! e) of
                     None \<Rightarrow> set_older (heap c) n None
                   | Some p \<Rightarrow> set_older (set_newer (heap c) p (Some n)) n (Some p)))"
  using assms by (simp add: remove_own_def remove_entry_def Let_def split: option.splits)

lemma remove1_middle: "distinct (ys @ e # zs) \<Longrightarrow> remove1 e (ys @ e # zs) = ys @ zs"
  by (simp add: remove1_append)

lemma tail_linked_remove:
  assumes l: "tail_linked c xs" and f: "map_of (keymap c) k = Some e"
  shows "tail_linked (fst (remove_own c k)) (remove1 e xs)"
proof -
  note d = tail_linkedD [OF l]
  note ke = tail_linked_keymap [OF l f]
  from f have fe: "own_binding c k = Some e" by (simp add: own_binding_def)
  note rp = remove_present [OF d(1) fe]
  from ke(1) obtain ys zs where xs: "xs = ys @ e # zs" by (auto dest: split_list)
  with d(2) have dist: "distinct (ys @ e # zs)" by simp
  then have e_ys: "e \<notin> set ys" and e_zs: "e \<notin> set zs" and dy: "distinct ys" and dz: "distinct zs"
    and disj: "set ys \<inter> set zs = {}"
    by auto
  from dist xs have r1: "remove1 e xs = ys @ zs" by (simp only: remove1_middle)
  from d(3) xs have A: "chain (heap c) None ys (Some e)"
    and B: "older (heap c ! e) = last_of ys None" "newer (heap c ! e) = first_of zs None"
    and C: "chain (heap c) (Some e) zs None"
    by (simp_all add: chain_append)
  have ch: "chain (heap (fst (remove_own c k))) None (ys @ zs) None"
  proof (cases ys rule: rev_cases)
    case Nil
    note ysn = this
    show ?thesis
    proof (cases zs)
      case Nil
      with ysn show ?thesis by simp
    next
      case (Cons n zs')
      with dz have "n \<notin> set zs'" by simp
      from chain_first_older [OF C [unfolded Cons] this, of None] B ysn Cons
      show ?thesis by (simp only: remove_heap [OF f] append_Nil last_of.simps first_of.simps
            option.case)
    qed
  next
    case (snoc ys' p)
    note yss = this
    with dy have p_ys': "p \<notin> set ys'" by simp
    from B yss have bo: "older (heap c ! e) = Some p" by simp
    show ?thesis
    proof (cases zs)
      case Nil
      from chain_last_newer [OF A [unfolded yss] p_ys', of None] B(2) bo yss Nil
      show ?thesis by (simp only: remove_heap [OF f] append_Nil2 first_of.simps option.case)
    next
      case (Cons n zs')
      with dz have n_zs': "n \<notin> set zs'" by simp
      from disj yss Cons have n_ys: "n \<notin> set ys" and p_zs: "p \<notin> set zs" by auto
      from B Cons have bn: "newer (heap c ! e) = Some n" by simp
      let ?h1 = "set_newer (heap c) p (Some n)"
      from chain_last_newer [OF A [unfolded yss] p_ys', of "Some n"] yss
      have "chain ?h1 None ys (Some n)" by simp
      then have 1: "chain (set_older ?h1 n (Some p)) None ys (Some n)"
        by (simp only: chain_set_older [OF n_ys])
      from C have "chain ?h1 (Some e) zs None"
        by (simp only: chain_set_newer [OF p_zs])
      from chain_first_older [OF this [unfolded Cons] n_zs', of "Some p"] Cons
      have 2: "chain (set_older ?h1 n (Some p)) (Some p) zs None" by simp
      have "first_of zs None = Some n" "last_of ys None = Some p"
        using Cons yss by simp_all
      with 1 2 have "chain (set_older ?h1 n (Some p)) None (ys @ zs) None"
        by (simp only: chain_append simp_thms)
      then show ?thesis
        by (simp only: remove_heap [OF f] bn bo option.case)
    qed
  qed
  have tl: "tail (fst (remove_own c k)) = last_of (ys @ zs) None"
    using d(4) xs B by (cases zs) (simp_all add: rp(7) last_of_Cons)
  have km: "\<forall>p \<in> set (keymap (fst (remove_own c k))). snd p \<in> set (ys @ zs)"
  proof
    fix p assume "p \<in> set (keymap (fst (remove_own c k)))"
    then have p: "p \<in> set (keymap c)" and k: "fst p \<noteq> k"
      by (simp_all add: rp(2) set_delete)
    from d(1) p have "key (heap c ! snd p) = fst p" by (simp add: refs_ok_iff)
    with k ke(3) have "snd p \<noteq> e" by auto
    with d(5) p xs show "snd p \<in> set (ys @ zs)" by auto
  qed
  from dist have "distinct (ys @ zs)" by auto
  with refs_ok_remove [OF d(1), of k] ch tl km show ?thesis
    by (simp only: r1 tail_linkedI)
qed

lemma get_touch_fields:
  assumes m: "map_of (keymap c) k = Some e" and t: "tail c = Some t" and te: "t \<noteq> e"
    and n: "newer (heap c ! e) = Some n" and ne: "n \<noteq> e"
  shows "heap (fst (get_own c k r)) =
           set_newer
             (set_older
                (set_newer
                   (case older (heap c ! e) of
                      None \<Rightarrow> set_older (heap c) n None
                    | Some p \<Rightarrow> set_newer (set_older (heap c) n (Some p)) p (Some n))
                   e None)
                e (Some t))
             t (Some e)"
    and "head (fst (get_own c k r)) = (if head c = Some e then Some n else head c)"
    and "tail (fst (get_own c k r)) = Some e"
    and "keymap (fst (get_own c k r)) = keymap c"
    and "size_lru (fst (get_own c k r)) = size_lru c"
    and "limit (fst (get_own c k r)) = limit c"
  using assms
  by (auto simp: get_own_def get_entry_def Let_def older_set_older split: option.splits)

lemma get_fast_fields:
  assumes "map_of (keymap c) k = None \<or> map_of (keymap c) k = tail c"
  shows "fst (get_own c k r) = c"
  using assms by (auto simp: get_own_def get_entry_def split: option.splits)

lemma get_size [simp]: "size_lru (fst (get_own c k r)) = size_lru c"
  by (simp add: get_own_def get_entry_def Let_def split: option.splits)

lemma get_limit [simp]: "limit (fst (get_own c k r)) = limit c"
  by (simp add: get_own_def get_entry_def Let_def split: option.splits)

lemma get_keymap [simp]: "keymap (fst (get_own c k r)) = keymap c"
  by (simp add: get_own_def get_entry_def Let_def split: option.splits)

lemma tail_linked_get_touch:
  assumes l: "tail_linked c xs" and f: "map_of (keymap c) k = Some e"
  shows "tail_linked (fst (get_own c k r)) (remove1 e xs @ [e])"
proof -
  note d = tail_linkedD [OF l]
  note ke = tail_linked_keymap [OF l f]
  from ke(1) obtain ys zs where xs: "xs = ys @ e # zs" by (auto dest: split_list)
  with d(2) have dist: "distinct (ys @ e # zs)" by simp
  then have e_ys: "e \<notin> set ys" and e_zs: "e \<notin> set zs" and dy: "distinct ys" and dz: "distinct zs"
    and disj: "set ys \<inter> set zs = {}"
    by auto
  from dist xs have r1: "remove1 e xs = ys @ zs" by (simp only: remove1_middle)
  show ?thesis
  proof (cases zs rule: rev_cases)
    case Nil
    with xs d(4) have "map_of (keymap c) k = tail c" by (simp add: f)
    then have "fst (get_own c k r) = c" by (simp add: get_fast_fields)
    with l xs Nil r1 show ?thesis by simp
  next
    case (snoc ws t)
    with xs d(4) have t: "tail c = Some t" by simp
    from e_zs snoc have te: "t \<noteq> e" by auto
    from snoc have "zs \<noteq> []" by simp
    then obtain n zs' where zs: "zs = n # zs'" by (auto simp: neq_Nil_conv)
    with e_zs have ne: "n \<noteq> e" by auto
    from d(3) xs have A: "chain (heap c) None ys (Some e)"
      and B: "older (heap c ! e) = last_of ys None" "newer (heap c ! e) = first_of zs None"
      and C: "chain (heap c) (Some e) zs None"
      by (simp_all add: chain_append)
    from B zs have bn: "newer (heap c ! e) = Some n" by simp
    note gf = get_touch_fields [OF f t te bn ne, of r]
    from dz zs have n_zs': "n \<notin> set zs'" by simp
    from disj zs have n_ys: "n \<notin> set ys" by auto
    from dz snoc have t_ws: "t \<notin> set ws" by simp
    from disj snoc have t_ys: "t \<notin> set ys" by auto
    from chain_range [OF d(3), of e] ke(1) have e_len: "e < length (heap c)" by simp
    let ?h2 = "case older (heap c ! e) of
                 None \<Rightarrow> set_older (heap c) n None
               | Some p \<Rightarrow> set_newer (set_older (heap c) n (Some p)) p (Some n)"
    have h2: "chain ?h2 None ys (Some n) \<and> chain ?h2 (last_of ys None) zs None"
    proof (cases ys rule: rev_cases)
      case Nil
      from chain_first_older [OF C [unfolded zs] n_zs', of None] B(1) Nil zs
      show ?thesis by simp
    next
      case (snoc ys' p)
      with dy have p_ys': "p \<notin> set ys'" by simp
      from disj snoc have p_zs: "p \<notin> set zs" by auto
      from B snoc have bo: "older (heap c ! e) = Some p" by simp
      let ?h1 = "set_older (heap c) n (Some p)"
      from A have "chain ?h1 None ys (Some e)"
        by (simp only: chain_set_older [OF n_ys])
      from chain_last_newer [OF this [unfolded snoc] p_ys', of "Some n"] snoc
      have 1: "chain (set_newer ?h1 p (Some n)) None ys (Some n)" by simp
      from chain_first_older [OF C [unfolded zs] n_zs', of "Some p"] zs
      have "chain ?h1 (Some p) zs None" by simp
      then have 2: "chain (set_newer ?h1 p (Some n)) (Some p) zs None"
        by (simp only: chain_set_newer [OF p_zs])
      from 1 2 snoc show ?thesis by (simp add: bo)
    qed
    let ?h4 = "set_older (set_newer ?h2 e None) e (Some t)"
    let ?h5 = "set_newer ?h4 t (Some e)"
    have len2: "length ?h2 = length (heap c)" by (simp split: option.splits)
    from h2 have 1: "chain ?h4 None ys (Some n)"
      by (simp only: chain_set_older [OF e_ys] chain_set_newer [OF e_ys])
    then have 1: "chain ?h5 None ys (Some n)"
      by (simp only: chain_set_newer [OF t_ys])
    from h2 have "chain ?h4 (last_of ys None) zs None"
      by (simp only: chain_set_older [OF e_zs] chain_set_newer [OF e_zs])
    from chain_last_newer [OF this [unfolded snoc] t_ws, of "Some e"] snoc
    have 2: "chain ?h5 (last_of ys None) zs (Some e)" by simp
    have 3: "chain ?h5 (Some t) [e] None"
      using te e_len len2 by (simp add: newer_set_newer older_set_older)
    have "first_of (zs @ [e]) None = Some n" using zs by simp
    moreover have "last_of zs (last_of ys None) = Some t" using snoc by simp
    ultimately have "first_of (zs @ [e]) None = Some n \<and> last_of zs (last_of ys None) = Some t" ..
    with 1 2 3 have "chain ?h5 None (ys @ zs @ [e]) None"
      by (simp only: chain_append first_of.simps simp_thms)
    then have ch: "chain (heap (fst (get_own c k r))) None (ys @ zs @ [e]) None"
      by (simp only: gf(1))
    have km: "\<forall>p \<in> set (keymap (fst (get_own c k r))). snd p \<in> set (ys @ zs @ [e])"
      using d(5) xs by auto
    from dist have "distinct (ys @ zs @ [e])" by auto
    with refs_ok_get [OF d(1), of k r] ch km have "tail_linked (fst (get_own c k r)) (ys @ zs @ [e])"
      by (intro tail_linkedI) (simp_all add: gf(3))
    with r1 show ?thesis by simp
  qed
qed

subsection \<open>Every operation but \<open>shift\<close> keeps the chain from head to tail\<close>

lemma linkedD:
  assumes "linked c xs"
  shows "refs_ok c" "distinct xs" "chain (heap c) None xs None"
    "head c = first_of xs None" "tail c = last_of xs None"
    "\<forall>p \<in> set (keymap c). snd p \<in> set xs" "tail_linked c xs"
  using assms by (auto simp: linked_def tail_linked_def list_all_iff)

lemma linked_keymap:
  assumes "linked c xs" "map_of (keymap c) k = Some a"
  shows "a \<in> set xs" "a < length (heap c)" "key (heap c ! a) = k"
  using tail_linked_keymap [OF linkedD(7) [OF assms(1)] assms(2)] by simp_all

lemma linked_size [simp]: "linked (c\<lparr>size_lru := s\<rparr>) xs = linked c xs"
  by (simp add: linked_def)

lemma linked_construct: "linked (construct lim) []"
  by (simp add: linked_def tail_linked_construct) (simp add: construct_def)

lemma linked_removeAll: "refs_ok c \<Longrightarrow> linked (removeAll_lru c) []"
  by (simp add: linked_def tail_linked_removeAll) (simp add: removeAll_lru_def)

lemma linked_set_val: "linked c xs \<Longrightarrow> linked (c\<lparr>heap := set_val (heap c) e v\<rparr>) xs"
  using tail_linked_set_val [of c xs e v] by (simp add: linked_def)

lemma linked_put_link:
  assumes l: "linked c xs"
  shows "linked (put_link c k v) (xs @ [length (heap c)])"
proof -
  note d = linkedD [OF l]
  have "head (put_link c k v) = first_of (xs @ [length (heap c)]) None"
    using d(4) d(5) by (cases xs) (simp_all add: put_link_fields)
  with tail_linked_put_link [OF d(7), of k v] show ?thesis by (simp add: linked_def)
qed

lemma linked_shift:
  assumes l: "linked c (x # y # ys)"
  shows "linked (fst (shift c)) (y # ys)" and "snd (shift c) = Some x"
proof -
  note d = linkedD [OF l]
  from d(4) have hx: "head c = Some x" by simp
  from d(3) have ny: "newer (heap c ! x) = Some y" by simp
  show "snd (shift c) = Some x" using hx by (rule shift_fields)
  from tail_linked_shift [OF d(7) hx] show "linked (fst (shift c)) (y # ys)"
    by (simp add: linked_def shift_fields(2) [OF hx] ny)
qed

lemma cache_inv_put:
  assumes inv: "cache_inv c xs" and lim: "limit c \<noteq> 0"
  shows "cache_inv (fst (put c k v))
           (if size_lru c = limit c then tl (xs @ [length (heap c)])
            else xs @ [length (heap c)])"
proof -
  from inv have l: "linked c xs" and sz: "size_lru c = int (length xs)"
    by (simp_all add: cache_inv_def)
  note pl = linked_put_link [OF l, of k v]
  show ?thesis
  proof (cases "size_lru c = limit c")
    case False
    with pl sz show ?thesis
      by (simp add: put_eq cache_inv_def)
  next
    case True
    with lim sz obtain x ys where xs: "xs = x # ys" by (cases xs) auto
    then obtain y zs where app: "xs @ [length (heap c)] = x # y # zs"
      by (cases ys) auto
    from app have "length (xs @ [length (heap c)]) = length (x # y # zs)" by simp
    then have len: "length xs = Suc (length zs)" by simp
    from linked_shift(1) [OF pl [unfolded app]] True sz len show ?thesis
      by (simp add: put_eq cache_inv_def put_link_fields app)
  qed
qed

lemma linked_remove:
  assumes l: "linked c xs" and f: "map_of (keymap c) k = Some e"
  shows "linked (fst (remove_own c k)) (remove1 e xs)"
proof -
  note d = linkedD [OF l]
  note ke = linked_keymap [OF l f]
  from f have fe: "own_binding c k = Some e" by (simp add: own_binding_def)
  note rp = remove_present [OF d(1) fe]
  from ke(1) obtain ys zs where xs: "xs = ys @ e # zs" by (auto dest: split_list)
  with d(2) have dist: "distinct (ys @ e # zs)" by simp
  from dist xs have r1: "remove1 e xs = ys @ zs" by (simp only: remove1_middle)
  from d(3) xs have B: "older (heap c ! e) = last_of ys None" "newer (heap c ! e) = first_of zs None"
    by (simp_all add: chain_append)
  have "head (fst (remove_own c k)) = first_of (ys @ zs) None"
    using d(4) xs B by (cases ys) (simp_all add: rp(6) last_of_Cons)
  with tail_linked_remove [OF d(7) f] r1 show ?thesis by (simp add: linked_def)
qed

lemma get_head:
  assumes "map_of (keymap c) k = Some e" "Some e \<noteq> tail c" "newer (heap c ! e) = Some n"
  shows "head (fst (get_own c k r)) = (if head c = Some e then Some n else head c)"
  using assms by (auto simp: get_own_def get_entry_def Let_def split: option.splits)

lemma linked_get_touch:
  assumes l: "linked c xs" and f: "map_of (keymap c) k = Some e"
  shows "linked (fst (get_own c k r)) (remove1 e xs @ [e])"
proof -
  note d = linkedD [OF l]
  note ke = linked_keymap [OF l f]
  from ke(1) obtain ys zs where xs: "xs = ys @ e # zs" by (auto dest: split_list)
  with d(2) have dist: "distinct (ys @ e # zs)" by simp
  then have e_ys: "e \<notin> set ys" and e_zs: "e \<notin> set zs" by auto
  from dist xs have r1: "remove1 e xs = ys @ zs" by (simp only: remove1_middle)
  have "head (fst (get_own c k r)) = first_of (ys @ zs @ [e]) None"
  proof (cases zs)
    case Nil
    with xs d(5) have "map_of (keymap c) k = tail c" by (simp add: f)
    then have "fst (get_own c k r) = c" by (simp add: get_fast_fields)
    with d(4) xs Nil show ?thesis by simp
  next
    case (Cons n zs')
    with d(3) xs have bn: "newer (heap c ! e) = Some n" by (simp add: chain_append)
    from xs d(5) Cons have "tail c = Some (last (n # zs'))" by simp
    moreover from e_zs Cons have "last (n # zs') \<noteq> e" using last_in_set [of "n # zs'"] by auto
    ultimately have te: "Some e \<noteq> tail c" by auto
    note gh = get_head [OF f te bn, of r]
    show ?thesis
    proof (cases ys)
      case Nil
      with d(4) xs Cons show ?thesis by (simp add: gh)
    next
      case (Cons y ys')
      with e_ys have "y \<noteq> e" by auto
      with d(4) xs Cons show ?thesis by (simp add: gh)
    qed
  qed
  with tail_linked_get_touch [OF d(7) f, of r] r1 show ?thesis by (simp add: linked_def)
qed

lemma linked_get:
  assumes "linked c xs"
  shows "linked (fst (get_own c k r))
           (case own_binding c k of None \<Rightarrow> xs | Some e \<Rightarrow> remove1 e xs @ [e])"
proof (cases "map_of (keymap c) k")
  case None
  with assms show ?thesis by (simp add: own_binding_def get_fast_fields)
next
  case (Some e)
  with linked_get_touch [OF assms Some, of r] show ?thesis by (simp add: own_binding_def)
qed

subsection \<open>The chain invariant\<close>

lemma get_result:
  "snd (get_own c k True) = (case map_of (keymap c) k of None \<Rightarrow> Undefined | Some e \<Rightarrow> Entry e)"
  by (simp add: get_own_def get_entry_def ret_of_def Let_def split: option.splits)

lemma set_own_present:
  "map_of (keymap c) k = Some e \<Longrightarrow>
   fst (set_own c k v) = (fst (get_own c k True))\<lparr>heap := set_val (heap (fst (get_own c k True))) e v\<rparr>"
  using get_result [of c k]
  by (cases "get_own c k True") (simp add: set_own_def)

lemma set_own_absent: "map_of (keymap c) k = None \<Longrightarrow> fst (set_own c k v) = fst (put c k v)"
  by (simp add: set_own_def get_own_def get_entry_def split: prod.splits option.splits)

lemma set_own_size_present:
  "map_of (keymap c) k = Some e \<Longrightarrow> size_lru (fst (set_own c k v)) = size_lru c"
  by (simp add: set_own_present)

lemma length_remove1_mem: "x \<in> set xs \<Longrightarrow> Suc (length (remove1 x xs)) = length xs"
  using length_pos_if_in_set [of x xs] by (simp add: length_remove1)

lemma cache_inv_get:
  "cache_inv c xs \<Longrightarrow>
   cache_inv (fst (get_own c k r)) (case own_binding c k of None \<Rightarrow> xs | Some e \<Rightarrow> remove1 e xs @ [e])"
  using linked_get [of c xs k r] linked_keymap(1) [of c xs k]
  by (auto simp: cache_inv_def own_binding_def length_remove1_mem split: option.splits)

lemma cache_inv_remove:
  "cache_inv c xs \<Longrightarrow>
   cache_inv (fst (remove_own c k)) (case own_binding c k of None \<Rightarrow> xs | Some e \<Rightarrow> remove1 e xs)"
proof (cases "own_binding c k")
  case None
  assume "cache_inv c xs"
  with None show ?thesis by (simp add: remove_absent)
next
  case (Some e)
  assume inv: "cache_inv c xs"
  then have l: "linked c xs" and sz: "size_lru c = int (length xs)"
    by (simp_all add: cache_inv_def)
  from Some have m: "map_of (keymap c) k = Some e" by (simp add: own_binding_def)
  from length_remove1_mem [OF linked_keymap(1) [OF l m]]
  have "int (length xs) - 1 = int (length (remove1 e xs))" by simp
  with linked_remove [OF l m] remove_present(3) [OF linkedD(1) [OF l] Some] sz
  show ?thesis by (simp add: cache_inv_def Some)
qed

lemma cache_inv_set:
  assumes inv: "cache_inv c xs" and lim: "own_binding c k = None \<longrightarrow> limit c \<noteq> 0"
  shows "cache_inv (fst (set_own c k v))
           (case own_binding c k of
              None \<Rightarrow> (if size_lru c = limit c then tl (xs @ [length (heap c)])
                       else xs @ [length (heap c)])
            | Some e \<Rightarrow> remove1 e xs @ [e])"
proof (cases "own_binding c k")
  case None
  then have "map_of (keymap c) k = None" by (simp add: own_binding_def)
  with cache_inv_put [OF inv, of k v] lim None show ?thesis
    by (simp add: set_own_absent)
next
  case (Some e)
  then have m: "map_of (keymap c) k = Some e" by (simp add: own_binding_def)
  from cache_inv_get [OF inv, of k True] Some
  have "cache_inv (fst (get_own c k True)) (remove1 e xs @ [e])" by simp
  then show ?thesis
    using linked_set_val [of "fst (get_own c k True)" "remove1 e xs @ [e]" e v]
    by (simp add: cache_inv_def set_own_present [OF m] Some)
qed

lemma cache_inv_removeAll: "cache_inv c xs \<Longrightarrow> cache_inv (removeAll_lru c) []"
proof -
  assume "cache_inv c xs"
  then have "refs_ok c" by (auto simp: cache_inv_def dest: linkedD(1))
  then have "linked (removeAll_lru c) []" by (rule linked_removeAll)
  then show ?thesis by (simp add: cache_inv_def) (simp add: removeAll_lru_def)
qed

lemma cache_inv_construct: "cache_inv (construct lim) []"
  using linked_construct [of lim] by (simp add: cache_inv_def) (simp add: construct_def)

lemma set_own_limit [simp]: "limit (fst (set_own c k v)) = limit c"
  by (cases "map_of (keymap c) k") (simp_all add: set_own_absent set_own_present)

lemma remove_limit [simp]: "limit (fst (remove_own c k)) = limit c"
  by (simp add: remove_own_def remove_entry_def Let_def split: option.splits)

lemma apply_op_limit [simp]: "limit (apply_own c x) = limit c"
  by (cases x) (simp_all add: removeAll_lru_def)

lemma cache_inv_apply_op:
  assumes "cache_inv c xs" "limit c \<noteq> 0" "x \<noteq> OpShift"
  shows "\<exists>ys. cache_inv (apply_own c x) ys"
proof (cases x)
  case OpShift
  with assms(3) show ?thesis by simp
next
  case (OpPut k v)
  with cache_inv_put [OF assms(1,2), of k v] show ?thesis by auto
next
  case (OpGet k r)
  with cache_inv_get [OF assms(1), of k r] show ?thesis by auto
next
  case (OpSet k v)
  with cache_inv_set [OF assms(1), of k v] assms(2) show ?thesis by auto
next
  case (OpRemove k)
  with cache_inv_remove [OF assms(1), of k] show ?thesis by auto
next
  case OpRemoveAll
  with cache_inv_removeAll [OF assms(1)] show ?thesis by auto
qed

lemma cache_inv_run:
  "cache_inv c xs \<Longrightarrow> limit c \<noteq> 0 \<Longrightarrow> OpShift \<notin> set ops \<Longrightarrow>
   \<exists>ys. cache_inv (run_own c ops) ys"
proof (induction ops arbitrary: c xs)
  case Nil
  then show ?case by auto
next
  case (Cons x ops)
  from Cons.prems have x: "x \<noteq> OpShift" and ops: "OpShift \<notin> set ops" by auto
  from cache_inv_apply_op [OF Cons.prems(1,2) x]
  obtain ys where "cache_inv (apply_own c x) ys" ..
  moreover from Cons.prems have "limit (apply_own c x) \<noteq> 0" by simp
  ultimately show ?case using Cons.IH ops by simp
qed

lemma cache_inv_traversal:
  assumes "cache_inv c xs"
  shows "walk_newer (heap c) (head c) = Some xs"
    and "walk_older (heap c) (tail c) = Some (rev xs)"
    and "forEach c False False = Some (map (\<lambda>a. (key (heap c ! a), val (heap c ! a))) xs)"
    and "forEach c False True = Some (map (\<lambda>a. (key (heap c ! a), val (heap c ! a))) (rev xs))"
proof -
  from assms have l: "linked c xs" by (simp add: cache_inv_def)
  note d = linkedD [OF l]
  from walk_newer_chain [OF d(3)] d(4) show 1: "walk_newer (heap c) (head c) = Some xs" by simp
  from walk_older_chain [OF d(3)] d(5) show 2: "walk_older (heap c) (tail c) = Some (rev xs)"
    by simp
  from 1 show "forEach c False False = Some (map (\<lambda>a. (key (heap c ! a), val (heap c ! a))) xs)"
    by (simp add: forEach_def)
  from 2 show "forEach c False True = Some (map (\<lambda>a. (key (heap c ! a), val (heap c ! a))) (rev xs))"
    by (simp add: forEach_def)
qed

text \<open>
  Claim C9 as stated fails for \<open>shift\<close>: after \<open>put("a", 1)\<close> the invariant holds
  with the chain \<open>[0]\<close>; after \<open>shift\<close> no chain satisfies it (\<open>head\<close> is none,
  \<open>tail\<close> still refers to the purged entry, and \<open>size\<close> is still 1).
\<close>

theorem evict_breaks_chain_counterexample:
  "cache_inv (cache_a 2) [0] \<and> \<not> (\<exists>xs. cache_inv (fst (shift (cache_a 2))) xs)"
proof
  show "cache_inv (cache_a 2) [0]" by code_simp
  have h: "head (fst (shift (cache_a 2))) = None" and t: "tail (fst (shift (cache_a 2))) = Some 0"
    by code_simp+
  show "\<not> (\<exists>xs. cache_inv (fst (shift (cache_a 2))) xs)"
  proof
    assume "\<exists>xs. cache_inv (fst (shift (cache_a 2))) xs"
    then obtain xs where "linked (fst (shift (cache_a 2))) xs" by (auto simp: cache_inv_def)
    note d = linkedD [OF this]
    from d(4) h have "xs = []" by (cases xs) simp_all
    with d(5) t show False by simp
  qed
qed

subsection \<open>Putting a key that is already bound\<close>

lemma shift_key [simp]: "key (heap (fst (shift c)) ! a) = key (heap c ! a)"
  by (simp add: shift_def Let_def split: option.splits)

lemma shift_val [simp]: "val (heap (fst (shift c)) ! a) = val (heap c ! a)"
  by (simp add: shift_def Let_def split: option.splits)

lemma put_link_key:
  "a \<le> length (heap c) \<Longrightarrow>
   key (heap (put_link c k v) ! a) = (if a = length (heap c) then k else key (heap c ! a))"
  by (simp add: put_link_heap nth_append split: option.splits)

lemma put_link_val:
  "a \<le> length (heap c) \<Longrightarrow>
   val (heap (put_link c k v) ! a) = (if a = length (heap c) then v else val (heap c ! a))"
  by (simp add: put_link_heap nth_append split: option.splits)

lemma put_key:
  "a \<le> length (heap c) \<Longrightarrow>
   key (heap (fst (put c k v)) ! a) = (if a = length (heap c) then k else key (heap c ! a))"
  by (simp add: put_eq put_link_key)

lemma put_val:
  "a \<le> length (heap c) \<Longrightarrow>
   val (heap (fst (put c k v)) ! a) = (if a = length (heap c) then v else val (heap c ! a))"
  by (simp add: put_eq put_link_val)

lemma put_tail: "tail (fst (put c k v)) = Some (length (heap c))"
  by (simp add: put_eq put_link_fields)

lemma put_find_no_evict:
  "size_lru c \<noteq> limit c \<Longrightarrow> own_binding (fst (put c k v)) k = Some (length (heap c))"
  by (simp add: put_eq put_link_fields own_binding_def update_conv')

lemma put_find_evict:
  assumes "size_lru c = limit c" "head c = Some x" "tail c \<noteq> None" "x < length (heap c)"
  shows "own_binding (fst (put c k v)) k =
           (if key (heap c ! x) = k then None else Some (length (heap c)))"
proof -
  from assms(2,3) have "head (put_link c k v) = Some x" by (auto simp: put_link_fields)
  from shift_fields(3) [OF this] assms(1,4) show ?thesis
    by (simp add: put_eq own_binding_def put_link_fields put_link_key delete_conv' update_conv')
qed

subsection \<open>What every reachable state satisfies\<close>

lemma set_after: "set (after a xs) \<subseteq> set xs"
  by (induction xs) auto

lemma after_notin [simp]: "a \<notin> set xs \<Longrightarrow> after a xs = []"
  by (induction xs) auto

lemma after_append_in [simp]: "a \<in> set xs \<Longrightarrow> after a (xs @ ys) = after a xs @ ys"
  by (induction xs) auto

lemma after_append_notin [simp]: "a \<notin> set xs \<Longrightarrow> after a (xs @ ys) = after a ys"
  by (induction xs) auto

lemma after_remove1: "distinct xs \<Longrightarrow> a \<noteq> e \<Longrightarrow> set (after a (remove1 e xs)) \<subseteq> set (after a xs)"
proof (induction xs)
  case Nil
  then show ?case by simp
next
  case (Cons x xs)
  then show ?case using set_remove1_subset [of e xs] by auto
qed

lemma last_after: "a \<in> set xs \<Longrightarrow> a \<noteq> last xs \<Longrightarrow> last xs \<in> set (after a xs)"
  by (induction xs) (auto split: if_splits)

lemma set_update_distinct:
  "distinct (map fst al) \<Longrightarrow> p \<in> set (AList.update k v al) \<Longrightarrow>
   p = (k, v) \<or> (p \<in> set al \<and> fst p \<noteq> k)"
  by (induction al) (auto split: if_splits)

lemma latestD:
  assumes "latest c xs"
  shows "distinct (map fst (keymap c))"
    and "p \<in> set (keymap c) \<Longrightarrow> b \<in> set (after (snd p) xs) \<Longrightarrow> key (heap c ! b) \<noteq> fst p"
  using assms by (auto simp: latest_def list_all_iff)

lemma latestI:
  "distinct (map fst (keymap c)) \<Longrightarrow>
   (\<And>p b. p \<in> set (keymap c) \<Longrightarrow> b \<in> set (after (snd p) xs) \<Longrightarrow> key (heap c ! b) \<noteq> fst p) \<Longrightarrow>
   latest c xs"
  by (force simp: latest_def list_all_iff)

lemma reach_invD:
  assumes "reach_inv c xs"
  shows "tail_linked c xs" "head c = None \<or> head c = first_of xs None" "latest c xs"
  using assms by (simp_all add: reach_inv_def)

lemma reach_inv_construct: "reach_inv (construct lim) []"
  by (simp add: reach_inv_def tail_linked_construct) (simp add: construct_def latest_def)

lemma reach_inv_removeAll: "reach_inv c xs \<Longrightarrow> reach_inv (removeAll_lru c) []"
  using tail_linked_removeAll [of c] tail_linkedD(1) [of c xs]
  by (simp add: reach_inv_def) (simp add: removeAll_lru_def latest_def)

lemma reach_inv_size [simp]: "reach_inv (c\<lparr>size_lru := s\<rparr>) xs = reach_inv c xs"
  by (simp add: reach_inv_def latest_def)

lemma reach_inv_put_link:
  assumes r: "reach_inv c xs"
  shows "reach_inv (put_link c k v) (xs @ [length (heap c)])"
proof -
  let ?e = "length (heap c)"
  note i = reach_invD [OF r]
  note d = tail_linkedD [OF i(1)]
  have fresh: "?e \<notin> set xs" using chain_range [OF d(3), of ?e] by auto
  have hd: "head (put_link c k v) = None \<or> head (put_link c k v) = first_of (xs @ [?e]) None"
    using i(2) d(4) by (cases xs) (auto simp: put_link_fields)
  have la: "latest (put_link c k v) (xs @ [?e])"
  proof (rule latestI)
    show "distinct (map fst (keymap (put_link c k v)))"
      using latestD(1) [OF i(3)] by (simp add: put_link_fields distinct_update)
  next
    fix p b
    assume p: "p \<in> set (keymap (put_link c k v))" and b: "b \<in> set (after (snd p) (xs @ [?e]))"
    from p set_update_distinct [OF latestD(1) [OF i(3)], of p k ?e]
    consider "p = (k, ?e)" | "p \<in> set (keymap c)" "fst p \<noteq> k"
      by (auto simp: put_link_fields)
    then show "key (heap (put_link c k v) ! b) \<noteq> fst p"
    proof cases
      case 1
      with b fresh show ?thesis by simp
    next
      case 2
      with d(5) have mem: "snd p \<in> set xs" by auto
      with b have "b \<in> set (after (snd p) xs) \<or> b = ?e" by auto
      then show ?thesis
      proof
        assume b': "b \<in> set (after (snd p) xs)"
        with set_after have "b \<in> set xs" by fastforce
        with chain_range [OF d(3)] have "b < ?e" by simp
        with latestD(2) [OF i(3) 2(1) b'] show ?thesis by (simp add: put_link_key)
      next
        assume "b = ?e"
        with 2(2) show ?thesis by (simp add: put_link_key)
      qed
    qed
  qed
  from tail_linked_put_link [OF i(1), of k v] hd la show ?thesis
    by (simp add: reach_inv_def)
qed

lemma reach_inv_shift:
  assumes r: "reach_inv c xs"
  shows "reach_inv (fst (shift c)) (if head c = None \<or> length xs \<le> 1 then xs else tl xs)"
proof (cases "head c")
  case None
  with r show ?thesis by (simp add: shift_no_head)
next
  case (Some x)
  note i = reach_invD [OF r]
  note d = tail_linkedD [OF i(1)]
  from i(2) Some obtain ys where xs: "xs = x # ys" by (cases xs) auto
  have dk: "distinct (map fst (keymap (fst (shift c))))"
    using latestD(1) [OF i(3)] by (simp add: shift_fields(3) [OF Some] distinct_delete)
  show ?thesis
  proof (cases ys)
    case Nil
    from d(3) xs Nil have nx: "newer (heap c ! x) = None" by simp
    have "latest (fst (shift c)) [x]"
    proof (rule latestI [OF dk])
      fix p b
      assume "p \<in> set (keymap (fst (shift c)))" "b \<in> set (after (snd p) [x])"
      then show "key (heap (fst (shift c)) ! b) \<noteq> fst p" by (simp split: if_splits)
    qed
    with tail_linked_shift_last [OF i(1) [unfolded xs Nil] Some] xs Nil Some show ?thesis
      by (simp add: reach_inv_def shift_fields(2) [OF Some] nx)
  next
    case (Cons y zs)
    from d(3) xs Cons have ny: "newer (heap c ! x) = Some y" by simp
    have "latest (fst (shift c)) (y # zs)"
    proof (rule latestI [OF dk])
      fix p b
      assume p: "p \<in> set (keymap (fst (shift c)))" and b: "b \<in> set (after (snd p) (y # zs))"
      from p have p': "p \<in> set (keymap c)" and k: "fst p \<noteq> key (heap c ! x)"
        by (simp_all add: shift_fields(3) [OF Some] set_delete)
      from d(1) p' have "key (heap c ! snd p) = fst p" by (simp add: refs_ok_iff)
      with k have "snd p \<noteq> x" by auto
      with b xs Cons have "b \<in> set (after (snd p) xs)" by simp
      from latestD(2) [OF i(3) p' this] show "key (heap (fst (shift c)) ! b) \<noteq> fst p" by simp
    qed
    with tail_linked_shift [OF i(1) [unfolded xs Cons] Some] xs Cons Some show ?thesis
      by (simp add: reach_inv_def shift_fields(2) [OF Some] ny)
  qed
qed

lemma reach_inv_put: "reach_inv c xs \<Longrightarrow> \<exists>ys. reach_inv (fst (put c k v)) ys"
  using reach_inv_shift [OF reach_inv_put_link, of c xs k v] reach_inv_put_link [of c xs k v]
  by (auto simp: put_eq)

lemma get_key [simp]: "key (heap (fst (get_own c k r)) ! b) = key (heap c ! b)"
  by (simp add: get_own_def get_entry_def Let_def split: option.splits)

lemma remove_key [simp]: "key (heap (fst (remove_own c k)) ! b) = key (heap c ! b)"
  by (simp add: remove_own_def remove_entry_def Let_def split: option.splits)

lemma reach_inv_get:
  assumes r: "reach_inv c xs"
  shows "reach_inv (fst (get_own c k r))
           (case own_binding c k of None \<Rightarrow> xs | Some e \<Rightarrow> remove1 e xs @ [e])"
proof (cases "map_of (keymap c) k")
  case None
  with r show ?thesis by (simp add: own_binding_def get_fast_fields)
next
  case (Some e)
  note f = this
  note i = reach_invD [OF r]
  note d = tail_linkedD [OF i(1)]
  note ke = tail_linked_keymap [OF i(1) f]
  from ke(1) obtain ys zs where xs: "xs = ys @ e # zs" by (auto dest: split_list)
  with d(2) have dist: "distinct (ys @ e # zs)" by simp
  then have e_ys: "e \<notin> set ys" and e_zs: "e \<notin> set zs" by auto
  from dist xs have r1: "remove1 e xs = ys @ zs" by (simp only: remove1_middle)
  have hd: "head (fst (get_own c k r)) = None \<or> head (fst (get_own c k r)) = first_of (ys @ zs @ [e]) None"
  proof (cases zs)
    case Nil
    with xs d(4) have "map_of (keymap c) k = tail c" by (simp add: f)
    then have "fst (get_own c k r) = c" by (simp add: get_fast_fields)
    with i(2) xs Nil show ?thesis by simp
  next
    case (Cons n zs')
    with d(3) xs have bn: "newer (heap c ! e) = Some n" by (simp add: chain_append)
    from xs d(4) Cons have "tail c = Some (last (n # zs'))" by simp
    moreover from e_zs Cons have "last (n # zs') \<noteq> e" using last_in_set [of "n # zs'"] by auto
    ultimately have te: "Some e \<noteq> tail c" by auto
    note gh = get_head [OF f te bn, of r]
    show ?thesis
    proof (cases ys)
      case Nil
      with i(2) xs Cons show ?thesis by (auto simp: gh)
    next
      case (Cons y ys')
      with e_ys have "y \<noteq> e" by auto
      with i(2) xs Cons show ?thesis by (auto simp: gh)
    qed
  qed
  have la: "latest (fst (get_own c k r)) (ys @ zs @ [e])"
  proof (rule latestI)
    show "distinct (map fst (keymap (fst (get_own c k r))))" using latestD(1) [OF i(3)] by simp
  next
    fix p b
    assume p: "p \<in> set (keymap (fst (get_own c k r)))"
      and b: "b \<in> set (after (snd p) (ys @ zs @ [e]))"
    from p have p': "p \<in> set (keymap c)" by simp
    from f have ke': "(k, e) \<in> set (keymap c)" by (rule map_of_SomeD)
    show "key (heap (fst (get_own c k r)) ! b) \<noteq> fst p"
    proof (cases "snd p = e")
      case True
      with b e_ys e_zs show ?thesis by simp
    next
      case False
      with latestD(1) [OF i(3)] p' ke' have kk: "fst p \<noteq> k"
        by (metis eq_key_imp_eq_value prod.collapse)
      from d(5) p' have "snd p \<in> set xs" by auto
      with False xs have mem: "snd p \<in> set (ys @ zs)" by auto
      from False after_remove1 [OF d(2), of "snd p" e] r1
      have sub: "set (after (snd p) (ys @ zs)) \<subseteq> set (after (snd p) xs)" by simp
      from b mem have "b \<in> set (after (snd p) (ys @ zs)) \<or> b = e"
        by (simp only: append_assoc [symmetric] after_append_in [OF mem]) auto
      then show ?thesis
      proof
        assume "b \<in> set (after (snd p) (ys @ zs))"
        with sub have "b \<in> set (after (snd p) xs)" by auto
        from latestD(2) [OF i(3) p' this] show ?thesis by simp
      next
        assume "b = e"
        with kk ke(3) show ?thesis by simp
      qed
    qed
  qed
  from tail_linked_get_touch [OF i(1) f, of r] hd la r1 f show ?thesis
    by (simp add: reach_inv_def own_binding_def)
qed

lemma reach_inv_remove:
  assumes r: "reach_inv c xs"
  shows "reach_inv (fst (remove_own c k))
           (case own_binding c k of None \<Rightarrow> xs | Some e \<Rightarrow> remove1 e xs)"
proof (cases "map_of (keymap c) k")
  case None
  with r show ?thesis by (simp add: own_binding_def remove_absent)
next
  case (Some e)
  note f = this
  note i = reach_invD [OF r]
  note d = tail_linkedD [OF i(1)]
  note ke = tail_linked_keymap [OF i(1) f]
  from f have fe: "own_binding c k = Some e" by (simp add: own_binding_def)
  note rp = remove_present [OF d(1) fe]
  from ke(1) obtain ys zs where xs: "xs = ys @ e # zs" by (auto dest: split_list)
  with d(2) have dist: "distinct (ys @ e # zs)" by simp
  from dist xs have r1: "remove1 e xs = ys @ zs" by (simp only: remove1_middle)
  from d(3) xs have B: "older (heap c ! e) = last_of ys None" "newer (heap c ! e) = first_of zs None"
    by (simp_all add: chain_append)
  have hd: "head (fst (remove_own c k)) = None \<or> head (fst (remove_own c k)) = first_of (ys @ zs) None"
    using i(2) xs B by (cases ys) (auto simp: rp(6) last_of_Cons)
  have la: "latest (fst (remove_own c k)) (ys @ zs)"
  proof (rule latestI)
    show "distinct (map fst (keymap (fst (remove_own c k))))"
      using latestD(1) [OF i(3)] by (simp add: rp(2) distinct_delete)
  next
    fix p b
    assume p: "p \<in> set (keymap (fst (remove_own c k)))" and b: "b \<in> set (after (snd p) (ys @ zs))"
    from p have p': "p \<in> set (keymap c)" and kk: "fst p \<noteq> k"
      by (simp_all add: rp(2) set_delete)
    from d(1) p' have "key (heap c ! snd p) = fst p" by (simp add: refs_ok_iff)
    with kk ke(3) have "snd p \<noteq> e" by auto
    from after_remove1 [OF d(2) this] r1 b have "b \<in> set (after (snd p) xs)" by auto
    from latestD(2) [OF i(3) p' this] show "key (heap (fst (remove_own c k)) ! b) \<noteq> fst p" by simp
  qed
  from tail_linked_remove [OF i(1) f] hd la r1 fe show ?thesis
    by (simp add: reach_inv_def)
qed

lemma reach_inv_set_val:
  "reach_inv c xs \<Longrightarrow> reach_inv (c\<lparr>heap := set_val (heap c) e v\<rparr>) xs"
  using tail_linked_set_val [of c xs e v]
  by (simp add: reach_inv_def latest_def)

lemma reach_inv_set: "reach_inv c xs \<Longrightarrow> \<exists>ys. reach_inv (fst (set_own c k v)) ys"
proof (cases "map_of (keymap c) k")
  case None
  assume "reach_inv c xs"
  with reach_inv_put [of c xs k v] None show ?thesis by (simp add: set_own_absent)
next
  case (Some e)
  assume "reach_inv c xs"
  from reach_inv_set_val [OF reach_inv_get [OF this, of k True], of e v] Some
  show ?thesis by (auto simp: set_own_present)
qed

lemma reach_inv_apply_op: "reach_inv c xs \<Longrightarrow> \<exists>ys. reach_inv (apply_own c x) ys"
proof (cases x)
  case (OpPut k v)
  assume "reach_inv c xs"
  with reach_inv_put [of c xs k v] OpPut show ?thesis by simp
next
  case OpShift
  assume "reach_inv c xs"
  from reach_inv_shift [OF this] OpShift show ?thesis by auto
next
  case (OpGet k r)
  assume "reach_inv c xs"
  from reach_inv_get [OF this, of k r] OpGet show ?thesis by auto
next
  case (OpSet k v)
  assume "reach_inv c xs"
  with reach_inv_set [of c xs k v] OpSet show ?thesis by simp
next
  case (OpRemove k)
  assume "reach_inv c xs"
  from reach_inv_remove [OF this, of k] OpRemove show ?thesis by auto
next
  case OpRemoveAll
  assume "reach_inv c xs"
  from reach_inv_removeAll [OF this] OpRemoveAll show ?thesis by auto
qed

lemma reach_inv_run: "reach_inv c xs \<Longrightarrow> \<exists>ys. reach_inv (run_own c ops) ys"
proof (induction ops arbitrary: c xs)
  case Nil
  then show ?case by auto
next
  case (Cons x ops)
  from reach_inv_apply_op [OF Cons.prems, of x] obtain ys where "reach_inv (apply_own c x) ys" ..
  from Cons.IH [OF this] show ?case by simp
qed

lemma refs_ok_run_own: "refs_ok (run_own (construct lim) ops)"
proof -
  from reach_inv_run [OF reach_inv_construct, of lim ops]
  obtain xs where "reach_inv (run_own (construct lim) ops) xs" ..
  then show ?thesis by (simp add: reach_inv_def tail_linked_def)
qed

text \<open>
  The dictionary never binds the key of the tail entry to another entry.
\<close>

lemma reach_inv_tail_key:
  assumes r: "reach_inv c xs" and t: "tail c = Some t"
  shows "own_binding c (key (heap c ! t)) = None \<or> own_binding c (key (heap c ! t)) = Some t"
proof (cases "map_of (keymap c) (key (heap c ! t))")
  case None
  then show ?thesis by (simp add: own_binding_def)
next
  case (Some a)
  note i = reach_invD [OF r]
  note d = tail_linkedD [OF i(1)]
  note ke = tail_linked_keymap [OF i(1) Some]
  from t d(4) have xs: "xs \<noteq> []" and lt: "last xs = t" by (cases xs; simp)+
  have "a = t"
  proof (rule ccontr)
    assume "a \<noteq> t"
    with last_after [OF ke(1)] lt have "t \<in> set (after a xs)" by simp
    from latestD(2) [OF i(3) map_of_SomeD [OF Some], of t] this show False by simp
  qed
  with Some show ?thesis by (simp add: own_binding_def)
qed

lemma get_tail_no_relink_own:
  assumes c: "c = run_own (construct lim) ops" and t: "tail c = Some t"
  shows "fst (get_own c (key (heap c ! t)) r) = c \<and>
     head (fst (get_own c (key (heap c ! t)) r)) = head c \<and>
     tail (fst (get_own c (key (heap c ! t)) r)) = tail c \<and>
     size_lru (fst (get_own c (key (heap c ! t)) r)) = size_lru c \<and>
     forEach (fst (get_own c (key (heap c ! t)) r)) False False = forEach c False False \<and>
     forEach (fst (get_own c (key (heap c ! t)) r)) False True = forEach c False True \<and>
     (snd (get_own c (key (heap c ! t)) r) = Undefined \<or>
      snd (get_own c (key (heap c ! t)) r) = (if r then Entry t else Value (val (heap c ! t))))"
proof -
  from reach_inv_run [OF reach_inv_construct, of lim ops] c
  obtain xs where "reach_inv c xs" by auto
  from reach_inv_tail_key [OF this t]
  have "map_of (keymap c) (key (heap c ! t)) = None \<or>
        map_of (keymap c) (key (heap c ! t)) = Some t"
    by (simp add: own_binding_def)
  then show ?thesis
    using t by (auto simp: get_own_def get_entry_def ret_of_def)
qed

subsection \<open>What \<open>put\<close> does when the chain has a head\<close>

text \<open>
  \<open>put\<close> in general: the new entry is the tail; when \<open>size \<noteq> limit\<close> nothing is
  returned and \<open>size\<close> grows by one; when \<open>size = limit\<close> the size stays and the result
  is the entry just inserted (cache without tail) or whatever \<open>head\<close> was, which is
  nothing in a state where \<open>shift\<close> has purged the last entry and left \<open>tail\<close>.
\<close>

lemma put_spec:
  "tail (fst (put c k v)) = Some (length (heap c)) \<and>
   key (heap (fst (put c k v)) ! length (heap c)) = k \<and>
   val (heap (fst (put c k v)) ! length (heap c)) = v \<and>
   (size_lru c \<noteq> limit c \<longrightarrow>
      snd (put c k v) = None \<and> size_lru (fst (put c k v)) = size_lru c + 1) \<and>
   (size_lru c = limit c \<longrightarrow>
      size_lru (fst (put c k v)) = size_lru c \<and>
      snd (put c k v) = (if tail c = None then Some (length (heap c)) else head c))"
proof -
  have "snd (put c k v) = (if tail c = None then Some (length (heap c)) else head c)"
    if "size_lru c = limit c"
  proof (cases "head (put_link c k v)")
    case None
    with that show ?thesis
      by (auto simp: put_eq shift_no_head put_link_fields split: if_splits)
  next
    case (Some x)
    from shift_fields(1) [OF this] Some that show ?thesis
      by (auto simp: put_eq put_link_fields split: if_splits)
  qed
  then show ?thesis
    by (simp add: put_tail put_key put_val put_size) (simp add: put_eq)
qed

section \<open>The methods with the inherited properties of the dictionary\<close>

subsection \<open>The lookup\<close>

lemma find_lru_Bound:
  "find_lru c k = Bound e \<longleftrightarrow> k \<noteq> ''__proto__'' \<and> own_binding c k = Some e"
  by (auto simp: find_lru_def own_binding_def split: option.splits)

lemma find_lru_Absent: "find_lru c k = Absent \<longleftrightarrow> plain_key k \<and> own_binding c k = None"
  by (auto simp: find_lru_def own_binding_def plain_key_def split: option.splits)

lemma find_lru_plain:
  "plain_key k \<Longrightarrow>
   find_lru c k = (case own_binding c k of None \<Rightarrow> Absent | Some e \<Rightarrow> Bound e)"
  by (simp add: find_lru_def own_binding_def plain_key_def split: option.splits)

lemma get_Bound:
  assumes "find_lru c k = Bound e"
  shows "get c k r = Done (get_own c k r)"
proof -
  from assms have "map_of (keymap c) k = Some e" by (simp add: find_lru_Bound own_binding_def)
  with assms show ?thesis by (simp add: get_def get_own_def)
qed

lemma get_Absent:
  assumes "find_lru c k = Absent"
  shows "get c k r = Done (get_own c k r)"
proof -
  from assms have "map_of (keymap c) k = None" by (simp add: find_lru_Absent own_binding_def)
  with assms show ?thesis by (simp add: get_def get_own_def)
qed

lemma remove_Bound:
  assumes "find_lru c k = Bound e"
  shows "remove c k = Done (remove_own c k)"
proof -
  from assms have "map_of (keymap c) k = Some e" by (simp add: find_lru_Bound own_binding_def)
  with assms show ?thesis by (simp add: remove_def remove_own_def)
qed

lemma remove_Absent:
  assumes "find_lru c k = Absent"
  shows "remove c k = Done (remove_own c k)"
proof -
  from assms have "map_of (keymap c) k = None" by (simp add: find_lru_Absent own_binding_def)
  with assms show ?thesis by (simp add: remove_def remove_own_def)
qed

lemma set_lru_Bound: "find_lru c k = Bound e \<Longrightarrow> set_lru c k v = Done (set_own c k v)"
  by (cases "get_own c k True")
    (auto simp: set_lru_def set_own_def get_Bound split: ret.splits option.splits prod.splits)

lemma set_lru_Absent: "find_lru c k = Absent \<Longrightarrow> set_lru c k v = Done (set_own c k v)"
  by (cases "get_own c k True")
    (auto simp: set_lru_def set_own_def get_Absent split: ret.splits option.splits prod.splits)

lemma plain_cases:
  assumes "plain_key k"
  obtains "find_lru c k = Absent" | e where "find_lru c k = Bound e"
  using assms by (cases "own_binding c k") (simp_all add: find_lru_plain)

lemma apply_op_plain: "plain_op x \<Longrightarrow> apply_op c x = Done (apply_own c x)"
proof (cases x)
  case (OpPut k v)
  assume "plain_op x"
  with OpPut show ?thesis by (simp add: plain_key_def)
next
  case OpShift
  then show ?thesis by simp
next
  case (OpGet k r)
  assume "plain_op x"
  with OpGet have "plain_key k" by simp
  then show ?thesis
    by (cases rule: plain_cases [of k c]; cases "get_own c k r")
      (simp_all add: OpGet get_Absent get_Bound)
next
  case (OpSet k v)
  assume "plain_op x"
  with OpSet have "plain_key k" by simp
  then show ?thesis
    by (cases rule: plain_cases [of k c]; cases "set_own c k v")
      (simp_all add: OpSet set_lru_Absent set_lru_Bound)
next
  case (OpRemove k)
  assume "plain_op x"
  with OpRemove have "plain_key k" by simp
  then show ?thesis
    by (cases rule: plain_cases [of k c]; cases "remove_own c k")
      (simp_all add: OpRemove remove_Absent remove_Bound)
next
  case OpRemoveAll
  then show ?thesis by simp
qed

lemma run_plain: "list_all plain_op ops \<Longrightarrow> run c ops = Done (run_own c ops)"
  by (induction ops arbitrary: c) (simp_all add: apply_op_plain)

text \<open>Every state that a sequence of calls reaches has well-formed references.\<close>

lemma refs_ok_apply_op: "refs_ok c \<Longrightarrow> apply_op c x = Done c' \<Longrightarrow> refs_ok c'"
proof (cases x)
  case (OpPut k v)
  assume "refs_ok c" "apply_op c x = Done c'"
  with OpPut refs_ok_put [of c k v] show ?thesis by (simp split: if_splits)
next
  case OpShift
  assume "refs_ok c" "apply_op c x = Done c'"
  with OpShift refs_ok_shift [of c] show ?thesis by auto
next
  case (OpGet k r)
  assume ok: "refs_ok c" and a: "apply_op c x = Done c'"
  have "get c k r = Foreign" if "find_lru c k = Inherited n" for n
    using that by (simp add: get_def)
  moreover have "get c k r = Foreign" if "find_lru c k = Prototype"
    using that by (simp add: get_def)
  ultimately have "c' = fst (get_own c k r)"
    using a OpGet
    by (cases "find_lru c k"; cases "get_own c k r")
      (auto simp: get_Absent get_Bound split: outcome.splits)
  with refs_ok_get [OF ok, of k r] show ?thesis by simp
next
  case (OpSet k v)
  assume ok: "refs_ok c" and a: "apply_op c x = Done c'"
  have "set_lru c k v = Foreign" if "find_lru c k = Inherited n" for n
    using that by (simp add: set_lru_def get_def)
  moreover have "set_lru c k v = Foreign" if "find_lru c k = Prototype"
    using that by (simp add: set_lru_def get_def)
  ultimately have "c' = fst (set_own c k v)"
    using a OpSet
    by (cases "find_lru c k"; cases "set_own c k v")
      (auto simp: set_lru_Absent set_lru_Bound split: outcome.splits)
  with refs_ok_set [OF ok, of k v] show ?thesis by simp
next
  case (OpRemove k)
  assume ok: "refs_ok c" and a: "apply_op c x = Done c'"
  show ?thesis
  proof (cases "find_lru c k")
    case Absent
    with a OpRemove refs_ok_remove [OF ok, of k] show ?thesis
      by (cases "remove_own c k") (auto simp: remove_Absent)
  next
    case (Bound e)
    with a OpRemove refs_ok_remove [OF ok, of k] show ?thesis
      by (cases "remove_own c k") (auto simp: remove_Bound)
  next
    case (Inherited n)
    with a OpRemove
    have c': "c' = c\<lparr>keymap := AList.delete ''undefined'' (keymap c), head := None,
                      tail := None, size_lru := size_lru c - 1\<rparr>"
      by (simp add: remove_def Let_def)
    from refs_ok_delete [OF ok, of "''undefined''"]
    have "refs_ok (c\<lparr>keymap := AList.delete ''undefined'' (keymap c)\<rparr>)" .
    from refs_ok_size [OF refs_ok_tail [OF refs_ok_head [OF this, of None], of None]]
    show ?thesis by (simp add: c')
  next
    case Prototype
    with a OpRemove show ?thesis by (simp add: remove_def)
  qed
next
  case OpRemoveAll
  assume "refs_ok c" "apply_op c x = Done c'"
  with OpRemoveAll refs_ok_removeAll [of c] show ?thesis by auto
qed

lemma refs_ok_run_from: "refs_ok c \<Longrightarrow> run c ops = Done c' \<Longrightarrow> refs_ok c'"
proof (induction ops arbitrary: c)
  case Nil
  then show ?case by simp
next
  case (Cons x ops)
  from Cons.prems(2) obtain c1 where 1: "apply_op c x = Done c1" and 2: "run c1 ops = Done c'"
    by (cases "apply_op c x") simp_all
  from Cons.IH [OF refs_ok_apply_op [OF Cons.prems(1) 1] 2] show ?case .
qed

lemma refs_ok_run: "run (construct lim) ops = Done c \<Longrightarrow> refs_ok c"
  using refs_ok_run_from [OF refs_ok_construct] .


subsection \<open>Putting a key that is bound, in a reachable state\<close>

lemma reach_inv_walk:
  assumes "reach_inv c xs"
  shows "walk_older (heap c) (tail c) = Some (rev xs)"
    and "walk_newer (heap c) (head c) = (if head c = None then Some [] else Some xs)"
proof -
  note i = reach_invD [OF assms]
  note d = tail_linkedD [OF i(1)]
  from walk_older_chain [OF d(3)] d(4) show "walk_older (heap c) (tail c) = Some (rev xs)"
    by simp
  show "walk_newer (heap c) (head c) = (if head c = None then Some [] else Some xs)"
  proof (cases "head c")
    case None
    then show ?thesis by (simp add: walk_newer.simps)
  next
    case (Some x)
    with i(2) have "head c = first_of xs None" by simp
    with walk_newer_chain [OF d(3)] Some show ?thesis by simp
  qed
qed

lemma reach_inv_put_chain:
  assumes r: "reach_inv c xs" and ne: "xs \<noteq> []"
  shows "reach_inv (fst (put c k v))
           ((if size_lru c = limit c \<and> head c \<noteq> None then tl xs else xs) @ [length (heap c)])"
proof -
  note d = tail_linkedD [OF reach_invD(1) [OF r]]
  from ne d(4) have t: "tail c \<noteq> None" by (cases xs) simp_all
  then have h: "head (put_link c k v) = head c" by (auto simp: put_link_fields)
  from ne have tl: "tl (xs @ [length (heap c)]) = tl xs @ [length (heap c)]" by simp
  from ne have len: "\<not> length (xs @ [length (heap c)]) \<le> 1" by (cases xs) simp_all
  note pl = reach_inv_put_link [OF r, of k v]
  show ?thesis
  proof (cases "size_lru c = limit c")
    case True
    from reach_inv_shift [OF pl] True h len tl show ?thesis
      by (auto simp: put_eq)
  next
    case False
    with pl show ?thesis by (simp add: put_eq)
  qed
qed

lemma put_find_stale:
  "size_lru c = limit c \<Longrightarrow> head c = None \<Longrightarrow> tail c \<noteq> None \<Longrightarrow>
   own_binding (fst (put c k v)) k = Some (length (heap c))"
  by (simp add: put_eq put_link_fields shift_no_head own_binding_def update_conv')

lemma put_head_stale: "head c = None \<Longrightarrow> tail c \<noteq> None \<Longrightarrow> head (fst (put c k v)) = None"
  by (simp add: put_eq put_link_fields shift_no_head)

lemma find_lru_own:
  "k \<noteq> ''__proto__'' \<Longrightarrow>
   find_lru c k =
     (case own_binding c k of
        Some e \<Rightarrow> Bound e
      | None \<Rightarrow> if k \<in> set inherited_names then Inherited k else Absent)"
  by (simp add: find_lru_def own_binding_def)

lemma put_existing_key_reach:
  assumes r: "reach_inv c xs" and f: "find_lru c k = Bound p"
  shows "p \<in> set xs \<and> p < length (heap c) \<and>
     key (heap (fst (put c k v)) ! length (heap c)) = k \<and>
     val (heap (fst (put c k v)) ! length (heap c)) = v \<and>
     key (heap (fst (put c k v)) ! p) = k \<and>
     tail (fst (put c k v)) = Some (length (heap c)) \<and>
     walk_older (heap (fst (put c k v))) (tail (fst (put c k v))) =
       Some (length (heap c) #
             rev (if size_lru c = limit c \<and> head c \<noteq> None then tl xs else xs)) \<and>
     walk_newer (heap (fst (put c k v))) (head (fst (put c k v))) =
       (if head c = None then Some []
        else Some ((if size_lru c = limit c then tl xs else xs) @ [length (heap c)])) \<and>
     (p \<in> set (if size_lru c = limit c \<and> head c \<noteq> None then tl xs else xs)) =
       (\<not> (size_lru c = limit c \<and> head c = Some p)) \<and>
     find_lru (fst (put c k v)) k =
       (if size_lru c = limit c \<and> map_option (\<lambda>h. key (heap c ! h)) (head c) = Some k
        then if k \<in> set inherited_names then Inherited k else Absent
        else Bound (length (heap c)))"
proof -
  let ?e = "length (heap c)"
  let ?c = "fst (put c k v)"
  let ?ys = "if size_lru c = limit c \<and> head c \<noteq> None then tl xs else xs"
  from f have kp: "k \<noteq> ''__proto__''" and m: "map_of (keymap c) k = Some p"
    by (simp_all add: find_lru_Bound own_binding_def)
  note i = reach_invD [OF r]
  note d = tail_linkedD [OF i(1)]
  note ke = tail_linked_keymap [OF i(1) m]
  from ke(1) have ne: "xs \<noteq> []" by auto
  with d(4) have t: "tail c \<noteq> None" by (cases xs) simp_all
  note r' = reach_inv_put_chain [OF r ne, of k v]
  have 1: "key (heap ?c ! ?e) = k" "val (heap ?c ! ?e) = v" "key (heap ?c ! p) = k"
    using ke(2,3) by (simp_all add: put_key put_val)
  have 2: "tail ?c = Some ?e" by (rule put_tail)
  from reach_inv_walk(1) [OF r']
  have 3: "walk_older (heap ?c) (tail ?c) = Some (?e # rev ?ys)" by simp
  have 4: "walk_newer (heap ?c) (head ?c) =
       (if head c = None then Some []
        else Some ((if size_lru c = limit c then tl xs else xs) @ [?e]))"
  proof (cases "head c")
    case None
    with put_head_stale [OF None t, of k v] show ?thesis by (simp add: walk_newer.simps)
  next
    case (Some x)
    with i(2) ne obtain zs where xs: "xs = x # zs" by (cases xs) auto
    have "head ?c \<noteq> None"
    proof (cases "size_lru c = limit c")
      case True
      from Some t have hp: "head (put_link c k v) = Some x" by (auto simp: put_link_fields)
      from tail_linkedD(3) [OF tail_linked_put_link [OF i(1), of k v]] xs
      have "newer (heap (put_link c k v) ! x) \<noteq> None" by (cases zs) simp_all
      with shift_fields(2) [OF hp] True show ?thesis by (simp add: put_eq)
    next
      case False
      with Some t show ?thesis by (auto simp: put_eq put_link_fields)
    qed
    with reach_inv_walk(2) [OF r'] Some show ?thesis by simp
  qed
  have 5: "(p \<in> set ?ys) = (\<not> (size_lru c = limit c \<and> head c = Some p))"
  proof (cases "size_lru c = limit c \<and> head c \<noteq> None")
    case True
    with i(2) ne obtain x zs where xs: "xs = x # zs" and hx: "head c = Some x"
      by (cases xs) auto
    with d(2) ke(1) True show ?thesis by auto
  next
    case False
    with ke(1) show ?thesis by auto
  qed
  have 6: "own_binding ?c k =
       (if size_lru c = limit c \<and> map_option (\<lambda>h. key (heap c ! h)) (head c) = Some k
        then None else Some ?e)"
  proof (cases "size_lru c = limit c")
    case False
    with put_find_no_evict [OF False, of k v] show ?thesis by simp
  next
    case True
    show ?thesis
    proof (cases "head c")
      case None
      with put_find_stale [OF True None t, of k v] True show ?thesis by simp
    next
      case (Some x)
      from refs_okD(1) [OF d(1) Some] have "x < length (heap c)" .
      from put_find_evict [OF True Some t this, of k v] True Some show ?thesis by auto
    qed
  qed
  from 6 kp have 7: "find_lru ?c k =
       (if size_lru c = limit c \<and> map_option (\<lambda>h. key (heap c ! h)) (head c) = Some k
        then if k \<in> set inherited_names then Inherited k else Absent
        else Bound ?e)"
    by (simp add: find_lru_own)
  from ke(1,2) 1 2 3 4 5 7 show ?thesis by blast
qed

lemma reach_inv_run_plain:
  assumes "list_all plain_op ops" "run (construct lim) ops = Done c"
  shows "\<exists>xs. reach_inv c xs"
proof -
  from run_plain [OF assms(1), of "construct lim"] assms(2)
  have "c = run_own (construct lim) ops" by simp
  with reach_inv_run [OF reach_inv_construct, of lim ops] show ?thesis by simp
qed

text \<open>
  Claim C4, as amended. Take a state reached from a fresh cache, of any limit, by calls
  whose keys are plain, and a key \<open>k\<close> whose lookup finds the entry \<open>p\<close>. Then \<open>p\<close>
  is on the chain \<open>xs\<close> that the traversal from \<open>tail\<close> visits, and \<open>put(k, v)\<close>
  allocates a second entry with the key \<open>k\<close>, at a new address, and makes it the tail;
  \<open>p\<close> keeps its key. \<open>p\<close> is not unlinked: both traversals still visit it after
  the \<open>put\<close> (the one from \<open>head\<close> visits nothing at all when the cache had no
  head), unless \<open>put\<close> has evicted it, which is so exactly when \<open>size = limit\<close> and
  \<open>p\<close> is the head. Afterwards the lookup of \<open>k\<close> finds the new entry, unless the
  head entry that \<open>put\<close> evicted has the key \<open>k\<close>: \<open>shift\<close> has then deleted the
  binding of \<open>k\<close>, and the lookup finds no entry.
\<close>

theorem put_existing_key:
  assumes "list_all plain_op ops" and "run (construct lim) ops = Done c"
    and "find_lru c k = Bound p"
  shows "\<exists>xs. walk_older (heap c) (tail c) = Some (rev xs) \<and>
     p \<in> set xs \<and> p < length (heap c) \<and>
     key (heap (fst (put c k v)) ! length (heap c)) = k \<and>
     val (heap (fst (put c k v)) ! length (heap c)) = v \<and>
     key (heap (fst (put c k v)) ! p) = k \<and>
     tail (fst (put c k v)) = Some (length (heap c)) \<and>
     walk_older (heap (fst (put c k v))) (tail (fst (put c k v))) =
       Some (length (heap c) #
             rev (if size_lru c = limit c \<and> head c \<noteq> None then tl xs else xs)) \<and>
     walk_newer (heap (fst (put c k v))) (head (fst (put c k v))) =
       (if head c = None then Some []
        else Some ((if size_lru c = limit c then tl xs else xs) @ [length (heap c)])) \<and>
     (p \<in> set (if size_lru c = limit c \<and> head c \<noteq> None then tl xs else xs)) =
       (\<not> (size_lru c = limit c \<and> head c = Some p)) \<and>
     find_lru (fst (put c k v)) k =
       (if size_lru c = limit c \<and> map_option (\<lambda>h. key (heap c ! h)) (head c) = Some k
        then if k \<in> set inherited_names then Inherited k else Absent
        else Bound (length (heap c)))"
proof -
  from reach_inv_run_plain [OF assms(1,2)] obtain xs where r: "reach_inv c xs" ..
  from reach_inv_walk(1) [OF r] put_existing_key_reach [OF r assms(3), of v]
  show ?thesis by blast
qed

theorem put_existing_key_witness:
  "list_all plain_op [OpPut ''a'' (1::nat)] \<and>
   run (construct 2) [OpPut ''a'' (1::nat)] = Done (cache_a 2) \<and>
   find_lru (cache_a 2) ''a'' = Bound 0 \<and>
   key (heap (fst (put (cache_a 2) ''a'' 2)) ! 1) = ''a'' \<and>
   key (heap (fst (put (cache_a 2) ''a'' 2)) ! 0) = ''a'' \<and>
   walk_older (heap (fst (put (cache_a 2) ''a'' 2))) (tail (fst (put (cache_a 2) ''a'' 2))) =
     Some [1, 0] \<and>
   walk_newer (heap (fst (put (cache_a 2) ''a'' 2))) (head (fst (put (cache_a 2) ''a'' 2))) =
     Some [0, 1] \<and>
   find_lru (fst (put (cache_a 2) ''a'' 2)) ''a'' = Bound 1 \<and>
   run (construct 1) [OpPut ''a'' (1::nat)] = Done (cache_a 1) \<and>
   find_lru (cache_a 1) ''a'' = Bound 0 \<and>
   walk_older (heap (fst (put (cache_a 1) ''a'' 2))) (tail (fst (put (cache_a 1) ''a'' 2))) =
     Some [1] \<and>
   walk_newer (heap (fst (put (cache_a 1) ''a'' 2))) (head (fst (put (cache_a 1) ''a'' 2))) =
     Some [1] \<and>
   find_lru (fst (put (cache_a 1) ''a'' 2)) ''a'' = Absent \<and>
   list_all plain_op [OpPut ''a'' (1::nat), OpShift, OpPut ''b'' 2] \<and>
   run (construct 5) [OpPut ''a'' (1::nat), OpShift, OpPut ''b'' 2] = Done cache_stale \<and>
   find_lru cache_stale ''b'' = Bound 1 \<and>
   walk_older (heap (fst (put cache_stale ''b'' 3))) (tail (fst (put cache_stale ''b'' 3))) =
     Some [2, 1, 0] \<and>
   walk_newer (heap (fst (put cache_stale ''b'' 3))) (head (fst (put cache_stale ''b'' 3))) =
     Some [] \<and>
   find_lru (fst (put cache_stale ''b'' 3)) ''b'' = Bound 2"
proof -
  have p: "list_all plain_op [OpPut ''a'' (1::nat)]" by code_simp
  have p3: "list_all plain_op [OpPut ''a'' (1::nat), OpShift, OpPut ''b'' 2]" by code_simp
  have r3: "run (construct 5) [OpPut ''a'' (1::nat), OpShift, OpPut ''b'' 2] = Done cache_stale"
    by code_simp
  have f3: "find_lru cache_stale ''b'' = Bound 1" by code_simp
  have w3: "walk_older (heap cache_stale) (tail cache_stale) = Some [1, 0]" by code_simp
  have g3: "size_lru cache_stale \<noteq> limit cache_stale" "length (heap cache_stale) = 2"
    "head cache_stale = None" by code_simp+
  from put_existing_key [OF p3 r3 f3, of 3] obtain zs where
    z: "walk_older (heap cache_stale) (tail cache_stale) = Some (rev zs)" and
    d: "walk_older (heap (fst (put cache_stale ''b'' 3))) (tail (fst (put cache_stale ''b'' 3))) =
          Some (length (heap cache_stale) #
             rev (if size_lru cache_stale = limit cache_stale \<and> head cache_stale \<noteq> None
                  then tl zs else zs))"
       "walk_newer (heap (fst (put cache_stale ''b'' 3))) (head (fst (put cache_stale ''b'' 3))) =
          (if head cache_stale = None then Some []
           else Some ((if size_lru cache_stale = limit cache_stale then tl zs else zs) @
                      [length (heap cache_stale)]))"
       "find_lru (fst (put cache_stale ''b'' 3)) ''b'' =
          (if size_lru cache_stale = limit cache_stale \<and>
              map_option (\<lambda>h. key (heap cache_stale ! h)) (head cache_stale) = Some ''b''
           then if ''b'' \<in> set inherited_names then Inherited ''b'' else Absent
           else Bound (length (heap cache_stale)))"
    by blast
  from z w3 have zs: "rev zs = [1, 0]" by simp
  from d g3 zs have D:
    "walk_older (heap (fst (put cache_stale ''b'' 3))) (tail (fst (put cache_stale ''b'' 3))) =
       Some [2, 1, 0]"
    "walk_newer (heap (fst (put cache_stale ''b'' 3))) (head (fst (put cache_stale ''b'' 3))) =
       Some []"
    "find_lru (fst (put cache_stale ''b'' 3)) ''b'' = Bound 2"
    by simp_all
  have r2: "run (construct 2) [OpPut ''a'' (1::nat)] = Done (cache_a 2)" by code_simp
  have r1: "run (construct 1) [OpPut ''a'' (1::nat)] = Done (cache_a 1)" by code_simp
  have f2: "find_lru (cache_a 2) ''a'' = Bound 0" by code_simp
  have f1: "find_lru (cache_a 1) ''a'' = Bound 0" by code_simp
  have w2: "walk_older (heap (cache_a 2)) (tail (cache_a 2)) = Some [0]" by code_simp
  have w1: "walk_older (heap (cache_a 1)) (tail (cache_a 1)) = Some [0]" by code_simp
  have g2: "size_lru (cache_a 2) \<noteq> limit (cache_a 2)" "length (heap (cache_a 2)) = 1"
    "head (cache_a 2) = Some 0" by code_simp+
  have g1: "size_lru (cache_a 1) = limit (cache_a 1)" "length (heap (cache_a 1)) = 1"
    "head (cache_a 1) = Some 0" "key (heap (cache_a 1) ! 0) = ''a''"
    "''a'' \<notin> set inherited_names" by code_simp+
  from put_existing_key [OF p r2 f2, of 2] obtain xs where
    x: "walk_older (heap (cache_a 2)) (tail (cache_a 2)) = Some (rev xs)" and
    a: "key (heap (fst (put (cache_a 2) ''a'' 2)) ! length (heap (cache_a 2))) = ''a''"
       "key (heap (fst (put (cache_a 2) ''a'' 2)) ! 0) = ''a''"
       "walk_older (heap (fst (put (cache_a 2) ''a'' 2))) (tail (fst (put (cache_a 2) ''a'' 2))) =
          Some (length (heap (cache_a 2)) #
             rev (if size_lru (cache_a 2) = limit (cache_a 2) \<and> head (cache_a 2) \<noteq> None
                  then tl xs else xs))"
       "walk_newer (heap (fst (put (cache_a 2) ''a'' 2))) (head (fst (put (cache_a 2) ''a'' 2))) =
          (if head (cache_a 2) = None then Some []
           else Some ((if size_lru (cache_a 2) = limit (cache_a 2) then tl xs else xs) @
                      [length (heap (cache_a 2))]))"
       "find_lru (fst (put (cache_a 2) ''a'' 2)) ''a'' =
          (if size_lru (cache_a 2) = limit (cache_a 2) \<and>
              map_option (\<lambda>h. key (heap (cache_a 2) ! h)) (head (cache_a 2)) = Some ''a''
           then if ''a'' \<in> set inherited_names then Inherited ''a'' else Absent
           else Bound (length (heap (cache_a 2))))"
    by blast
  from x w2 have xs: "xs = [0]" by simp
  from put_existing_key [OF p r1 f1, of 2] obtain ys where
    y: "walk_older (heap (cache_a 1)) (tail (cache_a 1)) = Some (rev ys)" and
    b: "walk_older (heap (fst (put (cache_a 1) ''a'' 2))) (tail (fst (put (cache_a 1) ''a'' 2))) =
          Some (length (heap (cache_a 1)) #
             rev (if size_lru (cache_a 1) = limit (cache_a 1) \<and> head (cache_a 1) \<noteq> None
                  then tl ys else ys))"
       "walk_newer (heap (fst (put (cache_a 1) ''a'' 2))) (head (fst (put (cache_a 1) ''a'' 2))) =
          (if head (cache_a 1) = None then Some []
           else Some ((if size_lru (cache_a 1) = limit (cache_a 1) then tl ys else ys) @
                      [length (heap (cache_a 1))]))"
       "find_lru (fst (put (cache_a 1) ''a'' 2)) ''a'' =
          (if size_lru (cache_a 1) = limit (cache_a 1) \<and>
              map_option (\<lambda>h. key (heap (cache_a 1) ! h)) (head (cache_a 1)) = Some ''a''
           then if ''a'' \<in> set inherited_names then Inherited ''a'' else Absent
           else Bound (length (heap (cache_a 1))))"
    by blast
  from y w1 have ys: "ys = [0]" by simp
  from a g2 xs have A:
    "key (heap (fst (put (cache_a 2) ''a'' 2)) ! 1) = ''a''"
    "key (heap (fst (put (cache_a 2) ''a'' 2)) ! 0) = ''a''"
    "walk_older (heap (fst (put (cache_a 2) ''a'' 2))) (tail (fst (put (cache_a 2) ''a'' 2))) =
       Some [1, 0]"
    "walk_newer (heap (fst (put (cache_a 2) ''a'' 2))) (head (fst (put (cache_a 2) ''a'' 2))) =
       Some [0, 1]"
    "find_lru (fst (put (cache_a 2) ''a'' 2)) ''a'' = Bound 1"
    by simp_all
  from b g1 ys have B:
    "walk_older (heap (fst (put (cache_a 1) ''a'' 2))) (tail (fst (put (cache_a 1) ''a'' 2))) =
       Some [1]"
    "walk_newer (heap (fst (put (cache_a 1) ''a'' 2))) (head (fst (put (cache_a 1) ''a'' 2))) =
       Some [1]"
    "find_lru (fst (put (cache_a 1) ''a'' 2)) ''a'' = Absent"
    by simp_all
  from p r2 r1 f2 f1 A B p3 r3 f3 D show ?thesis by simp
qed

text \<open>
  Claim C4 as stated fails: after \<open>put("a", 1); put("a", 2)\<close> on a cache of limit 2
  the previous entry (address 0) is still visited by the traversal from \<open>head\<close> and
  by the traversal from \<open>tail\<close>.
\<close>

theorem put_existing_key_counterexample:
  "run (construct 2) [OpPut ''a'' (1::nat)] = Done (cache_a 2) \<and>
   find_lru (cache_a 2) ''a'' = Bound 0 \<and>
   forEach (fst (put (cache_a 2) ''a'' 2)) False False = Some [(''a'', 1), (''a'', 2)] \<and>
   walk_newer (heap (fst (put (cache_a 2) ''a'' 2))) (head (fst (put (cache_a 2) ''a'' 2))) =
     Some [0, 1] \<and>
   walk_older (heap (fst (put (cache_a 2) ''a'' 2))) (tail (fst (put (cache_a 2) ''a'' 2))) =
     Some [1, 0]"
  by code_simp


subsection \<open>Setting a key that the lookup does not find\<close>

text \<open>
  Claim C5 as stated fails on the fresh cache of limit 0: the lookup of the key finds
  nothing, \<open>put\<close> evicts the entry just inserted, and \<open>set\<close> returns its value, not
  nothing.
\<close>

theorem set_evicted_self_counterexample:
  "find_lru (construct 0 :: nat cache) ''a'' = Absent \<and>
   snd (put (construct 0 :: nat cache) ''a'' 1) = Some (length (heap (construct 0 :: nat cache))) \<and>
   set_lru (construct 0 :: nat cache) ''a'' 1 = Done (cache_a 0, Some 1)"
  by code_simp

text \<open>
  Claim C5, as amended. In a state with well-formed references (every state that a
  sequence of calls reaches is one, \<open>refs_ok_run\<close>), let the lookup of \<open>k\<close> find
  nothing. Then \<open>set(k, v)\<close> performs \<open>put(k, v)\<close> and returns the value of the entry
  that \<open>put\<close> returned, whichever entry that is, and nothing when \<open>put\<close> returned
  nothing. So it returns nothing when \<open>size \<noteq> limit\<close>; when \<open>size = limit\<close> it
  returns the value just set if the cache has no tail, and otherwise the value of the
  head entry if there is one, and nothing if there is none.
\<close>

theorem set_absent_key:
  assumes "refs_ok c" and "find_lru c k = Absent"
  shows "set_lru c k v =
       Done (fst (put c k v),
             map_option (\<lambda>e. val (heap (fst (put c k v)) ! e)) (snd (put c k v))) \<and>
     map_option (\<lambda>e. val (heap (fst (put c k v)) ! e)) (snd (put c k v)) =
       (if size_lru c \<noteq> limit c then None
        else case tail c of
               None \<Rightarrow> Some v
             | Some t \<Rightarrow> (case head c of None \<Rightarrow> None | Some h \<Rightarrow> Some (val (heap c ! h))))"
proof -
  from assms(2) have o: "own_binding c k = None" by (simp add: find_lru_Absent)
  note a = set_absent_key_own [OF assms(1) o, of v]
  from a have "set_own c k v =
      (fst (put c k v), map_option (\<lambda>e. val (heap (fst (put c k v)) ! e)) (snd (put c k v)))"
    by (cases "set_own c k v") simp
  with set_lru_Absent [OF assms(2), of v] a show ?thesis by simp
qed

theorem set_absent_key_witness:
  "refs_ok (cache_a 1) \<and> find_lru (cache_a 1) ''b'' = Absent \<and>
   set_lru (cache_a 1) ''b'' 2 = Done (fst (put (cache_a 1) ''b'' 2), Some 1) \<and>
   refs_ok (construct 0 :: nat cache) \<and> find_lru (construct 0 :: nat cache) ''a'' = Absent \<and>
   set_lru (construct 0 :: nat cache) ''a'' 7 = Done (fst (put (construct 0) ''a'' 7), Some 7) \<and>
   refs_ok (cache_a 0) \<and> find_lru (cache_a 0) ''b'' = Absent \<and>
   set_lru (cache_a 0) ''b'' 2 = Done (fst (put (cache_a 0) ''b'' 2), None)"
proof -
  have 1: "refs_ok (cache_a 1)" "find_lru (cache_a 1) ''b'' = Absent" by code_simp+
  have 2: "refs_ok (construct 0 :: nat cache)" "find_lru (construct 0 :: nat cache) ''a'' = Absent"
    by code_simp+
  have 3: "refs_ok (cache_a 0)" "find_lru (cache_a 0) ''b'' = Absent" by code_simp+
  have 4: "size_lru (cache_a 1) = limit (cache_a 1)" "tail (cache_a 1) = Some 0"
    "head (cache_a 1) = Some 0" "val (heap (cache_a 1) ! 0) = 1"
    "size_lru (construct 0 :: nat cache) = limit (construct 0 :: nat cache)"
    "tail (construct 0 :: nat cache) = None"
    "size_lru (cache_a 0) = limit (cache_a 0)" "tail (cache_a 0) = Some 0"
    "head (cache_a 0) = None"
    by code_simp+
  from set_absent_key [OF 1, of 2] 4
  have a: "set_lru (cache_a 1) ''b'' 2 = Done (fst (put (cache_a 1) ''b'' 2), Some 1)" by simp
  from set_absent_key [OF 2, of 7] 4
  have b: "set_lru (construct 0 :: nat cache) ''a'' 7 = Done (fst (put (construct 0) ''a'' 7), Some 7)"
    by simp
  from set_absent_key [OF 3, of 2] 4
  have c: "set_lru (cache_a 0) ''b'' 2 = Done (fst (put (cache_a 0) ''b'' 2), None)" by simp
  from 1 2 3 a b c show ?thesis by simp
qed

subsection \<open>The calls that go wrong\<close>

text \<open>
  Claim C6 at the input
  \<open>new LRUCache(1); put("a", 1); shift(); put("b", 2); put("c", 3); shift()\<close>.
  Before the last \<open>shift\<close> the cache is not empty: the dictionary binds \<open>"b"\<close> and
  \<open>"c"\<close> and \<open>size\<close> is 1. But \<open>head\<close> is none, because the first \<open>shift\<close>
  cleared \<open>head\<close> and left \<open>tail\<close>, and each later \<open>put\<close> linked its entry behind
  that tail. The last \<open>shift\<close> returns nothing and removes nothing.
\<close>

theorem shift_stale_tail_returns_nothing:
  "run (construct 1) [OpPut ''a'' 1, OpShift, OpPut ''b'' 2, OpPut ''c'' 3] = Done cache_bc \<and>
   keys cache_bc = [''b'', ''c''] \<and>
   find_lru cache_bc ''b'' = Bound 1 \<and> find_lru cache_bc ''c'' = Bound 2 \<and>
   size_lru cache_bc = 1 \<and> head cache_bc = None \<and> tail cache_bc = Some 2 \<and>
   shift cache_bc = (cache_bc, None)"
  by code_simp

text \<open>
  Claim C7 at the input \<open>new LRUCache(2).remove("constructor")\<close>: the cache holds no
  key, the lookup finds the inherited function, and \<open>remove\<close> returns nothing but
  leaves \<open>size\<close> at \<open>-1\<close>. The same call after \<open>put("a", 1); put("b", 2)\<close>
  clears \<open>head\<close> and \<open>tail\<close> and leaves \<open>size\<close> at 1, with both keys still bound.
\<close>

theorem remove_inherited_key_changes_state:
  "keys (construct 2 :: nat cache) = [] \<and>
   find_lru (construct 2 :: nat cache) ''constructor'' = Inherited ''constructor'' \<and>
   remove (construct 2 :: nat cache) ''constructor'' =
     Done ((construct 2)\<lparr>size_lru := - 1\<rparr>, None) \<and>
   keys (cache_ab 2) = [''a'', ''b''] \<and>
   head (cache_ab 2) = Some 0 \<and> tail (cache_ab 2) = Some 1 \<and> size_lru (cache_ab 2) = 2 \<and>
   remove (cache_ab 2) ''constructor'' =
     Done ((cache_ab 2)\<lparr>head := None, tail := None, size_lru := 1\<rparr>, None)"
  by code_simp

text \<open>
  Claim C8 at the input
  \<open>new LRUCache(1); put("toString", 1); put("toString", 2); get("toString")\<close>.
  The second \<open>put\<close> evicts the first entry, and \<open>shift\<close> deletes the binding of its
  key, which is by then the binding of the second entry. So before the \<open>get\<close> the
  cache consists of one entry, head and tail, with the key \<open>"toString"\<close>, and the
  dictionary is empty. The lookup in \<open>get\<close> finds the inherited function, which is
  neither undefined nor the tail: \<open>get\<close> takes the path that relinks, with that
  function in the place of the entry.
\<close>

theorem get_tail_key_inherited:
  "run (construct 1) [OpPut ''toString'' 1, OpPut ''toString'' 2] = Done cache_toString \<and>
   size_lru cache_toString = 1 \<and>
   head cache_toString = Some 1 \<and> tail cache_toString = Some 1 \<and>
   key (heap cache_toString ! 1) = ''toString'' \<and> val (heap cache_toString ! 1) = 2 \<and>
   keys cache_toString = [] \<and>
   find_lru cache_toString ''toString'' = Inherited ''toString'' \<and>
   get cache_toString ''toString'' False = Foreign"
  by code_simp

text \<open>
  \<open>remove\<close> when the lookup finds an entry of the cache, or nothing: the entry's
  value is returned, its binding is deleted, its neighbours are linked to each other,
  \<open>size\<close> goes down by one; and nothing changes when nothing was found.
\<close>

lemma remove_found_or_absent:
  assumes ok: "refs_ok c"
  shows "(\<forall>e. find_lru c k = Bound e \<longrightarrow>
      (\<exists>c'. remove c k = Done (c', Some (val (heap c ! e))) \<and>
         (\<forall>a. find_lru c' k \<noteq> Bound a) \<and>
         k \<notin> set (keys c') \<and>
         size_lru c' = size_lru c - 1 \<and>
         (\<forall>p. older (heap c ! e) = Some p \<longrightarrow> newer (heap c' ! p) = newer (heap c ! e)) \<and>
         (\<forall>n. newer (heap c ! e) = Some n \<longrightarrow> older (heap c' ! n) = older (heap c ! e)) \<and>
         head c' = (if older (heap c ! e) = None then newer (heap c ! e) else head c) \<and>
         tail c' = (if newer (heap c ! e) = None then older (heap c ! e) else tail c))) \<and>
     (find_lru c k = Absent \<longrightarrow> remove c k = Done (c, None))"
proof (intro conjI allI impI)
  fix e
  assume f: "find_lru c k = Bound e"
  then have o: "own_binding c k = Some e" by (simp add: find_lru_Bound)
  note rp = remove_present [OF ok o]
  from rp(1) have "remove_own c k = (fst (remove_own c k), Some (val (heap c ! e)))"
    by (cases "remove_own c k") simp
  with remove_Bound [OF f]
  have 1: "remove c k = Done (fst (remove_own c k), Some (val (heap c ! e)))" by simp
  from rp(2) have 2: "\<forall>a. find_lru (fst (remove_own c k)) k \<noteq> Bound a"
    "k \<notin> set (keys (fst (remove_own c k)))"
    by (simp_all add: find_lru_Bound own_binding_def keys_def delete_conv' delete_keys)
  from 1 2 rp(3-7)
  show "\<exists>c'. remove c k = Done (c', Some (val (heap c ! e))) \<and>
         (\<forall>a. find_lru c' k \<noteq> Bound a) \<and>
         k \<notin> set (keys c') \<and>
         size_lru c' = size_lru c - 1 \<and>
         (\<forall>p. older (heap c ! e) = Some p \<longrightarrow> newer (heap c' ! p) = newer (heap c ! e)) \<and>
         (\<forall>n. newer (heap c ! e) = Some n \<longrightarrow> older (heap c' ! n) = older (heap c ! e)) \<and>
         head c' = (if older (heap c ! e) = None then newer (heap c ! e) else head c) \<and>
         tail c' = (if newer (heap c ! e) = None then older (heap c ! e) else tail c)"
    by auto
next
  assume "find_lru c k = Absent"
  then show "remove c k = Done (c, None)"
    by (simp add: remove_Absent remove_absent find_lru_Absent)
qed

text \<open>
  When the key of the tail entry is plain, \<open>get\<close> on it leaves the state as it is,
  in every state reached by calls with plain keys.
\<close>

lemma get_tail_plain_key:
  assumes "list_all plain_op ops" and "run (construct lim) ops = Done c"
    and "tail c = Some t" and "plain_key (key (heap c ! t))"
  shows "\<exists>y. get c (key (heap c ! t)) r = Done (c, y)"
proof -
  from run_plain [OF assms(1), of "construct lim"] assms(2)
  have c: "c = run_own (construct lim) ops" by simp
  from get_tail_no_relink_own [OF c assms(3), of r]
  have "fst (get_own c (key (heap c ! t)) r) = c" by simp
  then obtain y where "get_own c (key (heap c ! t)) r = (c, y)"
    by (cases "get_own c (key (heap c ! t)) r") simp
  moreover have "get c (key (heap c ! t)) r = Done (get_own c (key (heap c ! t)) r)"
    by (rule plain_cases [OF assms(4), of c]) (simp_all add: get_Absent get_Bound)
  ultimately show ?thesis by simp
qed

subsection \<open>The chain invariant under the calls that find an entry or nothing\<close>

text \<open>
  Claim C9, as amended. The fresh cache satisfies the chain invariant, and a state that
  satisfies it is taken to one that does by \<open>put\<close> (limit not 0, key not
  \<open>__proto__\<close>), by \<open>get\<close>, \<open>set\<close> and \<open>remove\<close> with a key whose lookup finds an
  entry of the cache or nothing (for \<open>set\<close> with limit not 0 when it finds nothing),
  and by \<open>removeAll\<close>; hence by every sequence of such calls with plain keys. The
  chain moves as the recency order does, and both traversals of \<open>forEach\<close> list
  exactly the chain. \<open>shift\<close> called directly is not covered: on a chain of two or
  more entries it drops the head and leaves \<open>size\<close> one above the length of the
  chain.
\<close>

theorem chain_invariant:
  "cache_inv (construct lim :: 'v cache) [] \<and>
   (cache_inv (c :: 'v cache) xs \<longrightarrow>
      (limit c \<noteq> 0 \<and> k \<noteq> ''__proto__'' \<longrightarrow>
         cache_inv (fst (put c k v))
           (if size_lru c = limit c then tl (xs @ [length (heap c)])
            else xs @ [length (heap c)])) \<and>
      (find_lru c k = Absent \<longrightarrow>
         get c k r = Done (c, Undefined) \<and> remove c k = Done (c, None) \<and>
         (limit c \<noteq> 0 \<longrightarrow>
            (\<exists>c' y. set_lru c k v = Done (c', y) \<and>
               cache_inv c' (if size_lru c = limit c then tl (xs @ [length (heap c)])
                             else xs @ [length (heap c)])))) \<and>
      (\<forall>e. find_lru c k = Bound e \<longrightarrow>
         (\<exists>c' y. get c k r = Done (c', y) \<and> cache_inv c' (remove1 e xs @ [e])) \<and>
         (\<exists>c' y. set_lru c k v = Done (c', y) \<and> cache_inv c' (remove1 e xs @ [e])) \<and>
         (\<exists>c' y. remove c k = Done (c', y) \<and> cache_inv c' (remove1 e xs))) \<and>
      cache_inv (removeAll_lru c) [] \<and>
      forEach c False False = Some (map (\<lambda>a. (key (heap c ! a), val (heap c ! a))) xs) \<and>
      forEach c False True = Some (map (\<lambda>a. (key (heap c ! a), val (heap c ! a))) (rev xs)) \<and>
      (limit c \<noteq> 0 \<and> OpShift \<notin> set ops \<and> list_all plain_op ops \<longrightarrow>
         (\<exists>c' ys. run c ops = Done c' \<and> cache_inv c' ys)) \<and>
      (\<forall>x y ys. xs = x # y # ys \<longrightarrow>
         linked (fst (shift c)) (y # ys) \<and>
         size_lru (fst (shift c)) = int (length (y # ys)) + 1))"
proof (intro conjI impI allI)
  show "cache_inv (construct lim :: 'v cache) []" by (rule cache_inv_construct)
next
  assume "cache_inv c xs" "limit c \<noteq> 0 \<and> k \<noteq> ''__proto__''"
  then show "cache_inv (fst (put c k v))
           (if size_lru c = limit c then tl (xs @ [length (heap c)])
            else xs @ [length (heap c)])" by (simp add: cache_inv_put)
next
  assume "find_lru c k = Absent"
  then show "get c k r = Done (c, Undefined)"
    by (simp add: get_Absent get_absent find_lru_Absent)
next
  assume "find_lru c k = Absent"
  then show "remove c k = Done (c, None)"
    by (simp add: remove_Absent remove_absent find_lru_Absent)
next
  assume inv: "cache_inv c xs" and f: "find_lru c k = Absent" and lim: "limit c \<noteq> 0"
  from f have o: "own_binding c k = None" by (simp add: find_lru_Absent)
  from cache_inv_set [OF inv, of k v] o lim
  have "cache_inv (fst (set_own c k v))
          (if size_lru c = limit c then tl (xs @ [length (heap c)])
           else xs @ [length (heap c)])" by simp
  with set_lru_Absent [OF f, of v]
  show "\<exists>c' y. set_lru c k v = Done (c', y) \<and>
               cache_inv c' (if size_lru c = limit c then tl (xs @ [length (heap c)])
                             else xs @ [length (heap c)])"
    by (cases "set_own c k v") simp
next
  fix e
  assume inv: "cache_inv c xs" and f: "find_lru c k = Bound e"
  from f have o: "own_binding c k = Some e" by (simp add: find_lru_Bound)
  from cache_inv_get [OF inv, of k r] o get_Bound [OF f, of r]
  show "\<exists>c' y. get c k r = Done (c', y) \<and> cache_inv c' (remove1 e xs @ [e])"
    by (cases "get_own c k r") simp
next
  fix e
  assume inv: "cache_inv c xs" and f: "find_lru c k = Bound e"
  from f have o: "own_binding c k = Some e" by (simp add: find_lru_Bound)
  from cache_inv_set [OF inv, of k v] o set_lru_Bound [OF f, of v]
  show "\<exists>c' y. set_lru c k v = Done (c', y) \<and> cache_inv c' (remove1 e xs @ [e])"
    by (cases "set_own c k v") simp
next
  fix e
  assume inv: "cache_inv c xs" and f: "find_lru c k = Bound e"
  from f have o: "own_binding c k = Some e" by (simp add: find_lru_Bound)
  from cache_inv_remove [OF inv, of k] o remove_Bound [OF f]
  show "\<exists>c' y. remove c k = Done (c', y) \<and> cache_inv c' (remove1 e xs)"
    by (cases "remove_own c k") simp
next
  assume "cache_inv c xs"
  then show "cache_inv (removeAll_lru c) []" by (rule cache_inv_removeAll)
next
  assume "cache_inv c xs"
  then show "forEach c False False = Some (map (\<lambda>a. (key (heap c ! a), val (heap c ! a))) xs)"
    by (rule cache_inv_traversal)
next
  assume "cache_inv c xs"
  then show "forEach c False True = Some (map (\<lambda>a. (key (heap c ! a), val (heap c ! a))) (rev xs))"
    by (rule cache_inv_traversal)
next
  assume inv: "cache_inv c xs"
    and a: "limit c \<noteq> 0 \<and> OpShift \<notin> set ops \<and> list_all plain_op ops"
  from cache_inv_run [OF inv, of ops] a obtain ys where "cache_inv (run_own c ops) ys" by auto
  with run_plain [of ops c] a show "\<exists>c' ys. run c ops = Done c' \<and> cache_inv c' ys" by auto
next
  fix x y ys
  assume inv: "cache_inv c xs" and xs: "xs = x # y # ys"
  then have "linked c (x # y # ys)" by (simp add: cache_inv_def)
  then show "linked (fst (shift c)) (y # ys)" by (rule linked_shift)
next
  fix x y ys
  assume inv: "cache_inv c xs" and xs: "xs = x # y # ys"
  then show "size_lru (fst (shift c)) = int (length (y # ys)) + 1"
    by (simp add: cache_inv_def)
qed

theorem chain_invariant_witness:
  "cache_inv (cache_ab 2) [0, 1] \<and> limit (cache_ab 2) \<noteq> 0 \<and>
   find_lru (cache_ab 2) ''a'' = Bound 0 \<and> find_lru (cache_ab 2) ''c'' = Absent \<and>
   cache_inv (fst (put (cache_ab 2) ''c'' 3)) [1, 2] \<and>
   get (cache_ab 2) ''c'' False = Done (cache_ab 2, Undefined) \<and>
   remove (cache_ab 2) ''c'' = Done (cache_ab 2, None) \<and>
   cache_inv (removeAll_lru (cache_ab 2)) [] \<and>
   forEach (cache_ab 2) False False = Some [(''a'', 1), (''b'', 2)] \<and>
   forEach (cache_ab 2) False True = Some [(''b'', 2), (''a'', 1)] \<and>
   linked (fst (shift (cache_ab 2))) [1] \<and> size_lru (fst (shift (cache_ab 2))) = 2 \<and>
   (\<exists>c' y. get (cache_ab 2) ''a'' False = Done (c', y) \<and> cache_inv c' [1, 0]) \<and>
   (\<exists>c' y. set_lru (cache_ab 2) ''a'' 5 = Done (c', y) \<and> cache_inv c' [1, 0]) \<and>
   (\<exists>c' y. remove (cache_ab 2) ''a'' = Done (c', y) \<and> cache_inv c' [1]) \<and>
   (\<exists>c' y. set_lru (cache_ab 2) ''c'' 3 = Done (c', y) \<and> cache_inv c' [1, 2])"
proof -
  have inv: "cache_inv (cache_ab 2) [0, 1]" by code_simp
  have f: "limit (cache_ab 2) \<noteq> 0" "find_lru (cache_ab 2) ''a'' = Bound 0"
    "find_lru (cache_ab 2) ''c'' = Absent" "size_lru (cache_ab 2) = limit (cache_ab 2)"
    "length (heap (cache_ab 2)) = 2"
    "key (heap (cache_ab 2) ! 0) = ''a''" "val (heap (cache_ab 2) ! 0) = 1"
    "key (heap (cache_ab 2) ! 1) = ''b''" "val (heap (cache_ab 2) ! 1) = 2"
    by code_simp+
  have n: "''c'' \<noteq> ''__proto__''" by simp
  note t = chain_invariant [of 2 "cache_ab 2" "[0, 1]", THEN conjunct2, rule_format, OF inv]
  from t [where k = "''c''" and v = 3 and r = False] f n
  have 1: "cache_inv (fst (put (cache_ab 2) ''c'' 3)) [1, 2]"
    and 2: "get (cache_ab 2) ''c'' False = Done (cache_ab 2, Undefined)"
    and 3: "remove (cache_ab 2) ''c'' = Done (cache_ab 2, None)"
    and 4: "\<exists>c' y. set_lru (cache_ab 2) ''c'' 3 = Done (c', y) \<and> cache_inv c' [1, 2]"
    by simp_all
  from t [where k = "''a''" and v = 5 and r = False] f
  have 5: "\<exists>c' y. get (cache_ab 2) ''a'' False = Done (c', y) \<and> cache_inv c' [1, 0]"
    and 6: "\<exists>c' y. set_lru (cache_ab 2) ''a'' 5 = Done (c', y) \<and> cache_inv c' [1, 0]"
    and 7: "\<exists>c' y. remove (cache_ab 2) ''a'' = Done (c', y) \<and> cache_inv c' [1]"
    by simp_all
  from t have 8: "cache_inv (removeAll_lru (cache_ab 2)) []" by simp
  from t f have 9: "forEach (cache_ab 2) False False = Some [(''a'', 1), (''b'', 2)]"
    "forEach (cache_ab 2) False True = Some [(''b'', 2), (''a'', 1)]" by simp_all
  from t have 10: "linked (fst (shift (cache_ab 2))) [1]"
    "size_lru (fst (shift (cache_ab 2))) = 2" by simp_all
  from inv f 1 2 3 4 5 6 7 8 9 10 show ?thesis by simp
qed

end
